theory Spec2Isabelle
  imports Main
begin

section \<open>Strings\<close>

text \<open>
  The program works on Python \<open>str\<close> values. A text is modelled as a \<open>string\<close>, one
  \<open>char\<close> per code point, so the model covers the texts whose code points are below 256;
  the character tables below are those of Python 3 on that range. The two pattern
  characters of the source that lie beyond it (the rupee sign in \<open>AMOUNT_RE\<close>, the en dash
  in the date-range pattern) are kept in the patterns as a class that no character of such a
  text belongs to.
\<close>

definition code :: "char \<Rightarrow> nat" where
  "code c = of_char c"

text \<open>\<open>str.isspace\<close>, which is also the class \<open>\s\<close> of \<open>re\<close>.\<close>

definition isspace :: "char \<Rightarrow> bool" where
  "isspace c = ((9 \<le> code c \<and> code c \<le> 13) \<or> (28 \<le> code c \<and> code c \<le> 32)
                \<or> code c = 133 \<or> code c = 160)"

text \<open>The class \<open>\d\<close> (and \<open>[0-9]\<close>: below 256 the two agree).\<close>

definition isdigit :: "char \<Rightarrow> bool" where
  "isdigit c = (48 \<le> code c \<and> code c \<le> 57)"

text \<open>The classes \<open>[A-Z]\<close> and \<open>[a-z]\<close>.\<close>

definition isAZ :: "char \<Rightarrow> bool" where
  "isAZ c = (65 \<le> code c \<and> code c \<le> 90)"

definition isaz :: "char \<Rightarrow> bool" where
  "isaz c = (97 \<le> code c \<and> code c \<le> 122)"

text \<open>The class \<open>\w\<close>: \<open>str.isalnum\<close> or the underscore.\<close>

definition isword :: "char \<Rightarrow> bool" where
  "isword c = (isdigit c \<or> isAZ c \<or> isaz c \<or> code c = 95
               \<or> code c = 170 \<or> code c = 178 \<or> code c = 179 \<or> code c = 181
               \<or> code c = 185 \<or> code c = 186 \<or> (188 \<le> code c \<and> code c \<le> 190)
               \<or> (192 \<le> code c \<and> code c \<le> 214) \<or> (216 \<le> code c \<and> code c \<le> 246)
               \<or> 248 \<le> code c)"

text \<open>
  \<open>str.lower\<close>: the upper-case letters of the range are 32 below their lower case, and
  the bit of value 32 is not set in their codes. On this range lower-casing maps character
  to character, so an offset into the lower-cased text is the same offset into the text.
  (Of all code points only U+0130, which is not in the range, has a lower case of two code
  points; a statement that carries an offset from the lower-cased text over to the text
  says so in a hypothesis of its own.)
\<close>

definition isupper :: "char \<Rightarrow> bool" where
  "isupper c = (isAZ c \<or> (192 \<le> code c \<and> code c \<le> 214) \<or> (216 \<le> code c \<and> code c \<le> 222))"

definition lower_chr :: "char \<Rightarrow> char" where
  "lower_chr c =
     (if isupper c
      then (case c of Char b0 b1 b2 b3 b4 b5 b6 b7 \<Rightarrow> Char b0 b1 b2 b3 b4 True b6 b7)
      else c)"

definition lower :: "string \<Rightarrow> string" where
  "lower s = map lower_chr s"

text \<open>\<open>str.strip()\<close>, \<open>str.split()\<close>, \<open>str.replace(',', '')\<close>, \<open>s[a:b]\<close> and \<open>int(s)\<close>.\<close>

definition strip :: "string \<Rightarrow> string" where
  "strip s = rev (dropWhile isspace (rev (dropWhile isspace s)))"

fun split_acc :: "string \<Rightarrow> string \<Rightarrow> string list" where
  "split_acc acc [] = (if acc = [] then [] else [acc])"
| "split_acc acc (c # cs) =
     (if isspace c then (if acc = [] then split_acc [] cs else acc # split_acc [] cs)
      else split_acc (acc @ [c]) cs)"

definition split :: "string \<Rightarrow> string list" where
  "split s = split_acc [] s"

definition remove_commas :: "string \<Rightarrow> string" where
  "remove_commas s = filter (\<lambda>c. c \<noteq> CHR '','') s"

definition slice :: "string \<Rightarrow> nat \<Rightarrow> nat \<Rightarrow> string" where
  "slice s a b = take (b - a) (drop a s)"

definition int_of :: "string \<Rightarrow> nat" where
  "int_of s = foldl (\<lambda>n c. 10 * n + (code c - 48)) 0 s"

text \<open>
  \<open>str.splitlines()\<close>: a line ends at a line boundary, \<open>\r\n\<close> counts as one, and there is
  no empty last line.
\<close>

definition islinebreak :: "char \<Rightarrow> bool" where
  "islinebreak c = ((10 \<le> code c \<and> code c \<le> 13) \<or> (28 \<le> code c \<and> code c \<le> 30)
                    \<or> code c = 133)"

fun lines_acc :: "string \<Rightarrow> string \<Rightarrow> string list" where
  "lines_acc acc [] = (if acc = [] then [] else [acc])"
| "lines_acc acc [c] = (if islinebreak c then [acc] else [acc @ [c]])"
| "lines_acc acc (c # d # cs) =
     (if c = CHR 0x0D \<and> d = CHR 0x0A then acc # lines_acc [] cs
      else if islinebreak c then acc # lines_acc [] (d # cs)
      else lines_acc (acc @ [c]) (d # cs))"

definition splitlines :: "string \<Rightarrow> string list" where
  "splitlines s = lines_acc [] s"

text \<open>Python's truth value of a \<open>str\<close>-or-\<open>None\<close>.\<close>

definition truthy :: "string option \<Rightarrow> bool" where
  "truthy v = (case v of None \<Rightarrow> False | Some s \<Rightarrow> s \<noteq> [])"

section \<open>Regular expressions of \<open>re\<close>\<close>

text \<open>
  The patterns of the program use character classes, sequence, ordered alternation, greedy
  bounded and unbounded repetition, capture groups, \<open>\b\<close>, \<open>^\<close> and \<open>$\<close>.
  \<open>Rep r lo hi\<close> is \<open>r{lo,hi}\<close>, with \<open>hi = None\<close> for no upper bound.
\<close>

datatype re =
    Cls "char \<Rightarrow> bool"
  | Seq re re
  | Alt re re
  | Rep re nat "nat option"
  | Grp nat re
  | Bnd
  | Bos
  | Eos

text \<open>
  A matcher state: the offset reached, the character before it, the rest of the subject,
  and the groups captured so far.
\<close>

record mstate =
  pos :: nat
  prev :: "char option"
  rest :: string
  grp :: "nat \<rightharpoonup> string"

definition at_boundary :: "mstate \<Rightarrow> bool" where
  "at_boundary st =
     ((case prev st of None \<Rightarrow> False | Some c \<Rightarrow> isword c)
      \<noteq> (case rest st of [] \<Rightarrow> False | c # _ \<Rightarrow> isword c))"

text \<open>
  \<open>many f lo hi st\<close>: the states after \<open>lo\<close> to \<open>hi\<close> rounds of \<open>f\<close>, the longest
  attempts first (a greedy repetition gives one round back at a time).
\<close>

primrec many :: "(mstate \<Rightarrow> mstate list) \<Rightarrow> nat \<Rightarrow> nat \<Rightarrow> mstate \<Rightarrow> mstate list" where
  "many f lo 0 st = (if lo = 0 then [st] else [])"
| "many f lo (Suc hi) st =
     concat (map (many f (lo - 1) hi) (f st)) @ (if lo = 0 then [st] else [])"

text \<open>
  \<open>ms r st\<close>: every way the backtracking matcher can match \<open>r\<close> from \<open>st\<close>, in the order
  in which it tries them; the first one is the match \<open>re\<close> reports. An unbounded
  repetition is bounded by the length of the rest: every repeated pattern of the program
  consumes at least one character per round.
\<close>

primrec ms :: "re \<Rightarrow> mstate \<Rightarrow> mstate list" where
  "ms (Cls p) st =
     (case rest st of [] \<Rightarrow> []
      | c # cs \<Rightarrow> if p c then [st\<lparr>pos := Suc (pos st), prev := Some c, rest := cs\<rparr>] else [])"
| "ms (Seq a b) st = concat (map (ms b) (ms a st))"
| "ms (Alt a b) st = ms a st @ ms b st"
| "ms (Rep r lo hi) st =
     many (ms r) lo (case hi of None \<Rightarrow> length (rest st) | Some h \<Rightarrow> h) st"
| "ms (Grp n r) st =
     map (\<lambda>st'. st'\<lparr>grp := (grp st')(n \<mapsto> take (pos st' - pos st) (rest st))\<rparr>) (ms r st)"
| "ms Bnd st = (if at_boundary st then [st] else [])"
| "ms Bos st = (if prev st = None then [st] else [])"
| "ms Eos st = (if rest st = [] \<or> rest st = [CHR 0x0A] then [st] else [])"

text \<open>A match object: \<open>m.start()\<close>, \<open>m.end()\<close>, and \<open>m.group(n)\<close> with group 0 the match.\<close>

record rmatch =
  mstart :: nat
  mend :: nat
  mgroups :: "nat \<rightharpoonup> string"

definition group :: "rmatch \<Rightarrow> nat \<Rightarrow> string" where
  "group m n = (case mgroups m n of None \<Rightarrow> [] | Some s \<Rightarrow> s)"

definition start_state :: "char option \<Rightarrow> nat \<Rightarrow> string \<Rightarrow> mstate" where
  "start_state pv i s = \<lparr>pos = i, prev = pv, rest = s, grp = Map.empty\<rparr>"

definition mk_match :: "nat \<Rightarrow> string \<Rightarrow> mstate \<Rightarrow> rmatch" where
  "mk_match i s st =
     \<lparr>mstart = i, mend = pos st, mgroups = (grp st)(0 \<mapsto> take (pos st - i) s)\<rparr>"

definition match_at :: "re \<Rightarrow> char option \<Rightarrow> nat \<Rightarrow> string \<Rightarrow> rmatch option" where
  "match_at r pv i s =
     (case ms r (start_state pv i s) of [] \<Rightarrow> None | st # _ \<Rightarrow> Some (mk_match i s st))"

text \<open>\<open>re.search\<close>: the first offset, from the left, at which the pattern matches.\<close>

fun scan :: "re \<Rightarrow> char option \<Rightarrow> nat \<Rightarrow> string \<Rightarrow> rmatch option" where
  "scan r pv i [] = match_at r pv i []"
| "scan r pv i (c # cs) =
     (case match_at r pv i (c # cs) of
        Some m \<Rightarrow> Some m
      | None \<Rightarrow> scan r (Some c) (Suc i) cs)"

definition re_search :: "re \<Rightarrow> string \<Rightarrow> rmatch option" where
  "re_search r s = scan r None 0 s"

text \<open>\<open>re.match\<close>: a match at offset 0 only.\<close>

definition re_match :: "re \<Rightarrow> string \<Rightarrow> rmatch option" where
  "re_match r s = match_at r None 0 s"

text \<open>
  \<open>re.finditer\<close>: the matches from left to right, each search starting where the match
  before ended; \<open>skip\<close> counts the characters still inside that match. (After an empty
  match the search moves on by one character; no pattern that the program iterates
  matches the empty string.)
\<close>

fun iter :: "re \<Rightarrow> nat \<Rightarrow> char option \<Rightarrow> nat \<Rightarrow> string \<Rightarrow> rmatch list" where
  "iter r skip pv i [] =
     (if skip = 0 then (case match_at r pv i [] of None \<Rightarrow> [] | Some m \<Rightarrow> [m]) else [])"
| "iter r skip pv i (c # cs) =
     (if skip = 0 then
        (case match_at r pv i (c # cs) of
           None \<Rightarrow> iter r 0 (Some c) (Suc i) cs
         | Some m \<Rightarrow> m # iter r (mend m - Suc i) (Some c) (Suc i) cs)
      else iter r (skip - 1) (Some c) (Suc i) cs)"

definition finditer :: "re \<Rightarrow> string \<Rightarrow> rmatch list" where
  "finditer r s = iter r 0 None 0 s"

subsection \<open>Writing patterns\<close>

definition chr :: "char \<Rightarrow> re" where
  "chr c = Cls (\<lambda>x. x = c)"

text \<open>A literal character under \<open>re.I\<close>.\<close>

definition chr_i :: "char \<Rightarrow> re" where
  "chr_i c = Cls (\<lambda>x. lower_chr x = lower_chr c)"

fun lit_of :: "(char \<Rightarrow> re) \<Rightarrow> string \<Rightarrow> re" where
  "lit_of f [c] = f c"
| "lit_of f (c # cs) = Seq (f c) (lit_of f cs)"
| "lit_of f [] = Rep Bos 0 (Some 0)"

definition lit :: "string \<Rightarrow> re" where
  "lit s = lit_of chr s"

definition lit_i :: "string \<Rightarrow> re" where
  "lit_i s = lit_of chr_i s"

fun seqs :: "re list \<Rightarrow> re" where
  "seqs [r] = r"
| "seqs (r # rs) = Seq r (seqs rs)"
| "seqs [] = Rep Bos 0 (Some 0)"

fun alts :: "re list \<Rightarrow> re" where
  "alts [r] = r"
| "alts (r # rs) = Alt r (alts rs)"
| "alts [] = Cls (\<lambda>_. False)"

definition opt :: "re \<Rightarrow> re" where
  "opt r = Rep r 0 (Some 1)"

definition star :: "re \<Rightarrow> re" where
  "star r = Rep r 0 None"

definition plus1 :: "re \<Rightarrow> re" where
  "plus1 r = Rep r 1 None"

definition spaces :: re where
  "spaces = star (Cls isspace)"

definition digits1 :: re where
  "digits1 = plus1 (Cls isdigit)"

text \<open>A pattern character that is not below 256: no character of a text is one.\<close>

definition above_range :: "char \<Rightarrow> bool" where
  "above_range c = False"

section \<open>The patterns of the program\<close>

text \<open>\<^verbatim>\<open>AMOUNT_RE = (?:Rs\.?|INR|<rupee>)?\s*([0-9]{1,3}(?:,[0-9]{3})*(?:\.\d+)?|\d+(?:\.\d+)?)\<close>\<close>

definition fraction :: re where
  "fraction = opt (Seq (chr CHR ''.'') digits1)"

definition thousands :: re where
  "thousands = Seq (chr CHR '','') (Rep (Cls isdigit) 3 (Some 3))"

definition grouped_numeral :: re where
  "grouped_numeral = seqs [Rep (Cls isdigit) 1 (Some 3), star thousands, fraction]"

definition plain_numeral :: re where
  "plain_numeral = Seq digits1 fraction"

definition currency :: re where
  "currency = alts [Seq (lit ''Rs'') (opt (chr CHR ''.'')), lit ''INR'', Cls above_range]"

definition AMOUNT_RE :: re where
  "AMOUNT_RE = seqs [opt currency, spaces, Grp 1 (Alt grouped_numeral plain_numeral)]"

text \<open>
  \<open>DATE_RE\<close>, compiled with \<open>re.I\<close>: one group around three alternatives,
  \<^verbatim>\<open>\b\d{1,2}[/-]\d{1,2}[/-]\d{2,4}\b\<close>,
  \<^verbatim>\<open>\b(?:\d{1,2}\s+(?:Jan|...|Dec)[a-z]*[.,]?\s+\d{2,4})\b\<close> and
  \<^verbatim>\<open>\b(?:Jan|...|Dec)[a-z]*\s+\d{1,2}[,]?\s+\d{2,4}\b\<close>.
\<close>

definition sep :: re where
  "sep = Cls (\<lambda>c. c = CHR ''/'' \<or> c = CHR ''-'')"

definition digits_1_2 :: re where
  "digits_1_2 = Rep (Cls isdigit) 1 (Some 2)"

definition digits_2_4 :: re where
  "digits_2_4 = Rep (Cls isdigit) 2 (Some 4)"

definition numeric_date :: re where
  "numeric_date = seqs [digits_1_2, sep, digits_1_2, sep, digits_2_4]"

definition month_name :: re where
  "month_name =
     alts (map lit_i [''Jan'', ''Feb'', ''Mar'', ''Apr'', ''May'', ''Jun'', ''Jul'', ''Aug'',
                      ''Sep'', ''Sept'', ''Oct'', ''Nov'', ''Dec''])"

definition letter_i :: re where
  "letter_i = Cls (\<lambda>c. isaz (lower_chr c))"

definition month :: re where
  "month = Seq month_name (star letter_i)"

definition spaces1 :: re where
  "spaces1 = plus1 (Cls isspace)"

definition date_alt1 :: re where
  "date_alt1 = seqs [Bnd, numeric_date, Bnd]"

definition date_alt2 :: re where
  "date_alt2 =
     seqs [Bnd, digits_1_2, spaces1, month, opt (Cls (\<lambda>c. c = CHR ''.'' \<or> c = CHR '','')),
           spaces1, digits_2_4, Bnd]"

definition date_alt3 :: re where
  "date_alt3 =
     seqs [Bnd, month, spaces1, digits_1_2, opt (chr CHR '',''), spaces1, digits_2_4, Bnd]"

definition DATE_RE :: re where
  "DATE_RE = Grp 1 (alts [date_alt1, date_alt2, date_alt3])"

text \<open>\<^verbatim>\<open>([*Xx]{2,}[*Xx0-9\s\-]{0,20}(\d{4}))\<close>\<close>

definition ismask :: "char \<Rightarrow> bool" where
  "ismask c = (c = CHR ''*'' \<or> c = CHR ''X'' \<or> c = CHR ''x'')"

definition mask_tail :: "char \<Rightarrow> bool" where
  "mask_tail c = (ismask c \<or> isdigit c \<or> isspace c \<or> c = CHR ''-'')"

definition four_re :: re where
  "four_re = Rep (Cls isdigit) 4 (Some 4)"

definition masked_re :: re where
  "masked_re =
     Grp 1 (seqs [Rep (Cls ismask) 2 None, Rep (Cls mask_tail) 0 (Some 20), Grp 2 four_re])"

text \<open>\<^verbatim>\<open>(\d{4})\<close>, \<^verbatim>\<open>\d{4}\<close> and \<^verbatim>\<open>card\b|card no|card number|card account\<close>\<close>

definition four_grp_re :: re where
  "four_grp_re = Grp 1 four_re"

definition card_re :: re where
  "card_re = alts [Seq (lit ''card'') Bnd, lit ''card no'', lit ''card number'',
                   lit ''card account'']"

text \<open>
  The list \<open>total_keywords\<close>:
  \<^verbatim>\<open>total\s*(?:amount\s*)?due\<close>, \<^verbatim>\<open>total\s*dues\<close>, \<^verbatim>\<open>total\s*payment\s*due\<close>,
  \<^verbatim>\<open>your\s*total\s*amount\s*due\<close>, \<^verbatim>\<open>total\s*dues\s*[:\-]?\<close>,
  \<^verbatim>\<open>total\s*amount\s*payable\<close>, \<^verbatim>\<open>total\s*payment\<close>, \<^verbatim>\<open>total\s*d(ue|ues)\b\<close>;
  and the pattern of the fallback,
  \<^verbatim>\<open>(total[\s\w]{0,20}due|total[\s\w]{0,20}dues)\<close>.
\<close>

definition colon_or_hyphen :: re where
  "colon_or_hyphen = Cls (\<lambda>c. c = CHR '':'' \<or> c = CHR ''-'')"

definition total_kw1 :: re where
  "total_kw1 = seqs [lit ''total'', spaces, opt (Seq (lit ''amount'') spaces), lit ''due'']"

definition total_kw2 :: re where
  "total_kw2 = seqs [lit ''total'', spaces, lit ''dues'']"

definition total_kw3 :: re where
  "total_kw3 = seqs [lit ''total'', spaces, lit ''payment'', spaces, lit ''due'']"

definition total_kw4 :: re where
  "total_kw4 =
     seqs [lit ''your'', spaces, lit ''total'', spaces, lit ''amount'', spaces, lit ''due'']"

definition total_kw5 :: re where
  "total_kw5 = seqs [lit ''total'', spaces, lit ''dues'', spaces, opt colon_or_hyphen]"

definition total_kw6 :: re where
  "total_kw6 = seqs [lit ''total'', spaces, lit ''amount'', spaces, lit ''payable'']"

definition total_kw7 :: re where
  "total_kw7 = seqs [lit ''total'', spaces, lit ''payment'']"

definition total_kw8 :: re where
  "total_kw8 =
     seqs [lit ''total'', spaces, chr CHR ''d'', Grp 1 (Alt (lit ''ue'') (lit ''ues'')), Bnd]"

definition total_keywords :: "re list" where
  "total_keywords =
     [total_kw1, total_kw2, total_kw3, total_kw4, total_kw5, total_kw6, total_kw7, total_kw8]"

definition space_or_word :: re where
  "space_or_word = Cls (\<lambda>c. isspace c \<or> isword c)"

definition total_fallback_re :: re where
  "total_fallback_re =
     Grp 1 (Alt (seqs [lit ''total'', Rep space_or_word 0 (Some 20), lit ''due''])
                (seqs [lit ''total'', Rep space_or_word 0 (Some 20), lit ''dues'']))"

text \<open>
  The list \<open>due_patterns\<close>:
  \<^verbatim>\<open>payment\s*due\s*date\<close>, \<^verbatim>\<open>due\s*date\<close>, \<^verbatim>\<open>payment\s*due\b\<close>,
  \<^verbatim>\<open>payment\s*due\s*[:\-]?\<close>, \<^verbatim>\<open>payment\s*due\s*\<close>;
  and \<^verbatim>\<open>(immediat|immediate|immediately|immediately)\<close> with \<open>re.I\<close>.
\<close>

definition due_pat1 :: re where
  "due_pat1 = seqs [lit ''payment'', spaces, lit ''due'', spaces, lit ''date'']"

definition due_pat2 :: re where
  "due_pat2 = seqs [lit ''due'', spaces, lit ''date'']"

definition due_pat3 :: re where
  "due_pat3 = seqs [lit ''payment'', spaces, lit ''due'', Bnd]"

definition due_pat4 :: re where
  "due_pat4 = seqs [lit ''payment'', spaces, lit ''due'', spaces, opt colon_or_hyphen]"

definition due_pat5 :: re where
  "due_pat5 = seqs [lit ''payment'', spaces, lit ''due'', spaces]"

definition due_patterns :: "re list" where
  "due_patterns = [due_pat1, due_pat2, due_pat3, due_pat4, due_pat5]"

definition immediate_re :: re where
  "immediate_re =
     Grp 1 (alts [lit_i ''immediat'', lit_i ''immediate'', lit_i ''immediately'',
                  lit_i ''immediately''])"

text \<open>
  The list \<open>statement_patterns\<close>:
  \<^verbatim>\<open>statement\s*date\<close>, \<^verbatim>\<open>statement\s*generation\s*date\<close>, \<^verbatim>\<open>statement\s*period\<close>,
  \<^verbatim>\<open>statement\s*for\<close>; and the date-range pattern
  \<^verbatim>\<open>(\d{1,2}[/-]\d{1,2}[/-]\d{2,4}\s*[-<en dash>]\s*\d{1,2}[/-]\d{1,2}[/-]\d{2,4})\<close>.
\<close>

definition statement_pat1 :: re where
  "statement_pat1 = seqs [lit ''statement'', spaces, lit ''date'']"

definition statement_pat2 :: re where
  "statement_pat2 = seqs [lit ''statement'', spaces, lit ''generation'', spaces, lit ''date'']"

definition statement_pat3 :: re where
  "statement_pat3 = seqs [lit ''statement'', spaces, lit ''period'']"

definition statement_pat4 :: re where
  "statement_pat4 = seqs [lit ''statement'', spaces, lit ''for'']"

definition statement_patterns :: "re list" where
  "statement_patterns = [statement_pat1, statement_pat2, statement_pat3, statement_pat4]"

definition hyphen_or_dash :: re where
  "hyphen_or_dash = Cls (\<lambda>c. c = CHR ''-'' \<or> above_range c)"

definition date_range_re :: re where
  "date_range_re = Grp 1 (seqs [numeric_date, spaces, hyphen_or_dash, spaces, numeric_date])"

text \<open>
  \<^verbatim>\<open>\bName\s*[:\-]\s*([A-Z][A-Z\s\.\-]{2,100})\<close>,
  \<^verbatim>\<open>\bCustomer\s+Name\s*[:\-]?\s*([A-Z][A-Z\s\.\-]{2,100})\<close>, \<^verbatim>\<open>\d\<close>,
  \<^verbatim>\<open>^[A-Z][a-zA-Z\.]{1,}$\<close> and the pattern of the generic words, with \<open>re.I\<close>.
\<close>

definition name_char :: "char \<Rightarrow> bool" where
  "name_char c = (isAZ c \<or> isspace c \<or> c = CHR ''.'' \<or> c = CHR ''-'')"

definition name_capture :: re where
  "name_capture = Grp 1 (Seq (Cls isAZ) (Rep (Cls name_char) 2 (Some 100)))"

definition name_re :: re where
  "name_re = seqs [Bnd, lit ''Name'', spaces, colon_or_hyphen, spaces, name_capture]"

definition customer_name_re :: re where
  "customer_name_re =
     seqs [Bnd, lit ''Customer'', spaces1, lit ''Name'', spaces,
           opt colon_or_hyphen, spaces, name_capture]"

definition digit_re :: re where
  "digit_re = Cls isdigit"

definition word_char :: "char \<Rightarrow> bool" where
  "word_char c = (isaz c \<or> isAZ c \<or> c = CHR ''.'')"

definition word_shape_re :: re where
  "word_shape_re = seqs [Bos, Cls isAZ, Rep (Cls word_char) 1 None, Eos]"

definition generic_re :: re where
  "generic_re =
     Grp 1 (alts (map lit_i [''statement'', ''payment'', ''due'', ''account'', ''page'',
                             ''customer'', ''bank'', ''credit'', ''statement date'']))"

section \<open>The extraction\<close>

record candidate_pool =
  dates :: "string list"
  amounts :: "string list"

record extraction =
  cardholder_name :: "string option"
  statement_date :: "string option"
  payment_due_date :: "string option"
  total_amount_due :: "string option"
  card_last4 :: "string option"
  candidates :: candidate_pool

subsection \<open>\<open>find_amount_near\<close>\<close>

definition find_amount_near :: "string \<Rightarrow> nat \<Rightarrow> nat \<Rightarrow> string option" where
  "find_amount_near text start_idx search_window =
     (let window = slice text start_idx (start_idx + search_window)
      in case re_search AMOUNT_RE window of Some m \<Rightarrow> Some (group m 1) | None \<Rightarrow> None)"

subsection \<open>1) Card last 4\<close>

text \<open>
  The two nested loops over \<open>card_positions\<close> and the 4-digit matches; the pair is
  \<open>(best, best_dist)\<close>, \<open>None\<close> while \<open>best is None\<close>.
\<close>

fun nearest :: "nat \<Rightarrow> rmatch list \<Rightarrow> (string \<times> nat) option \<Rightarrow> (string \<times> nat) option" where
  "nearest p [] b = b"
| "nearest p (m2 # tl_ms) b =
     (let dist = (if p \<le> mstart m2 then mstart m2 - p else p - mstart m2)
      in nearest p tl_ms
           (case b of
              None \<Rightarrow> Some (group m2 0, dist)
            | Some (best, best_dist) \<Rightarrow>
                if dist < best_dist then Some (group m2 0, dist) else b))"

fun nearest_all :: "nat list \<Rightarrow> string \<Rightarrow> (string \<times> nat) option \<Rightarrow> (string \<times> nat) option" where
  "nearest_all [] text b = b"
| "nearest_all (p # ps) text b = nearest_all ps text (nearest p (finditer four_re text) b)"

definition non_year_fours :: "string \<Rightarrow> (nat \<times> string) list" where
  "non_year_fours text =
     map (\<lambda>m2. (mstart m2, group m2 0))
       (filter (\<lambda>m2. \<not> (1900 \<le> int_of (group m2 0) \<and> int_of (group m2 0) \<le> 2099))
          (finditer four_re text))"

definition possible_last4 :: "string \<Rightarrow> string option" where
  "possible_last4 text =
     (case re_search masked_re text of
        Some m \<Rightarrow> Some (group m 2)
      | None \<Rightarrow>
          (let all_four = map (\<lambda>m. group m 1) (finditer four_grp_re text) in
           if all_four \<noteq> [] then
             (let card_positions = map mstart (finditer card_re (lower text)) in
              if card_positions \<noteq> [] then
                map_option fst (nearest_all card_positions text None)
              else
                (case non_year_fours text of [] \<Rightarrow> None | (_, d) # _ \<Rightarrow> Some d))
           else None))"

definition extract_card_last4 :: "string \<Rightarrow> string option" where
  "extract_card_last4 text =
     (case possible_last4 text of
        None \<Rightarrow> None
      | Some p \<Rightarrow> if p \<noteq> [] then Some (strip p) else None)"

subsection \<open>2) Total amount due\<close>

text \<open>The loop over the matches of one keyword; \<open>Some\<close> is \<open>found_total\<close>.\<close>

fun total_matches :: "string \<Rightarrow> rmatch list \<Rightarrow> string option" where
  "total_matches lower_text [] = None"
| "total_matches lower_text (m # tl_ms) =
     (let amt = find_amount_near lower_text (mend m) 200
      in case amt of
           None \<Rightarrow> total_matches lower_text tl_ms
         | Some a \<Rightarrow> if a \<noteq> [] then Some (remove_commas a) else total_matches lower_text tl_ms)"

fun total_keyword_loop :: "string \<Rightarrow> re list \<Rightarrow> string option" where
  "total_keyword_loop lower_text [] = None"
| "total_keyword_loop lower_text (kw # kws) =
     (case total_matches lower_text (finditer kw lower_text) of
        Some v \<Rightarrow> Some v
      | None \<Rightarrow> total_keyword_loop lower_text kws)"

fun total_fallback :: "string \<Rightarrow> rmatch list \<Rightarrow> string option \<Rightarrow> string option" where
  "total_fallback text [] out = out"
| "total_fallback text (m # tl_ms) out =
     (let amt = find_amount_near text (mstart m) 300
      in case amt of
           None \<Rightarrow> total_fallback text tl_ms out
         | Some a \<Rightarrow> if a \<noteq> [] then Some (remove_commas a) else total_fallback text tl_ms out)"

definition extract_total_amount_due :: "string \<Rightarrow> string option" where
  "extract_total_amount_due text =
     (let out = total_keyword_loop (lower text) total_keywords
      in if \<not> truthy out
         then total_fallback text (finditer total_fallback_re (lower text)) out
         else out)"

subsection \<open>3) Payment due date\<close>

text \<open>
  The inner loop leaves \<open>payment_due\<close> as it was when no match of the keyword is
  followed by a date or an immediate word; the outer loop stops once it is truthy.
\<close>

fun due_matches :: "string \<Rightarrow> rmatch list \<Rightarrow> string option \<Rightarrow> string option" where
  "due_matches text [] payment_due = payment_due"
| "due_matches text (m # tl_ms) payment_due =
     (let window = slice text (mend m) (mend m + 140)
      in case re_search DATE_RE window of
           Some dm \<Rightarrow> Some (strip (group dm 0))
         | None \<Rightarrow>
             (case re_search immediate_re window of
                Some im \<Rightarrow> Some (strip (group im 0))
              | None \<Rightarrow> due_matches text tl_ms payment_due))"

fun due_pattern_loop :: "string \<Rightarrow> re list \<Rightarrow> string option \<Rightarrow> string option" where
  "due_pattern_loop text [] payment_due = payment_due"
| "due_pattern_loop text (pat # pats) payment_due =
     (let payment_due' = due_matches text (finditer pat (lower text)) payment_due
      in if truthy payment_due' then payment_due' else due_pattern_loop text pats payment_due')"

definition extract_payment_due_date :: "string \<Rightarrow> string option" where
  "extract_payment_due_date text = due_pattern_loop text due_patterns None"

subsection \<open>4) Statement date\<close>

fun statement_matches :: "string \<Rightarrow> rmatch list \<Rightarrow> string option \<Rightarrow> string option" where
  "statement_matches text [] stmt = stmt"
| "statement_matches text (m # tl_ms) stmt =
     (let window = slice text (mend m) (mend m + 140)
      in case re_search DATE_RE window of
           Some dm \<Rightarrow> Some (strip (group dm 0))
         | None \<Rightarrow>
             (case re_search date_range_re window of
                Some dm2 \<Rightarrow> Some (strip (group dm2 0))
              | None \<Rightarrow> statement_matches text tl_ms stmt))"

fun statement_pattern_loop :: "string \<Rightarrow> re list \<Rightarrow> string option \<Rightarrow> string option" where
  "statement_pattern_loop text [] stmt = stmt"
| "statement_pattern_loop text (pat # pats) stmt =
     (let stmt' = statement_matches text (finditer pat (lower text)) stmt
      in if truthy stmt' then stmt'
         else statement_pattern_loop text pats stmt')"

definition extract_statement_date :: "string \<Rightarrow> string option" where
  "extract_statement_date text = statement_pattern_loop text statement_patterns None"

subsection \<open>5) Cardholder name\<close>

definition labelled_name :: "string \<Rightarrow> string option" where
  "labelled_name text =
     (case re_search name_re text of
        Some nm \<Rightarrow> Some (strip (group nm 1))
      | None \<Rightarrow>
          (case re_search customer_name_re text of
             Some nm2 \<Rightarrow> Some (strip (group nm2 1))
           | None \<Rightarrow> None))"

text \<open>The tests a line of the fallback scan has to pass, in the order of the source.\<close>

definition name_line :: "string \<Rightarrow> bool" where
  "name_line l =
     (if l = [] then False
      else if re_search digit_re l \<noteq> None then False
      else (let words = split l in
            if 1 < length words \<and> length words \<le> 5 then
              (if 1 \<le> length (filter (\<lambda>w. re_match word_shape_re w \<noteq> None) words)
               then re_search generic_re l = None
               else False)
            else False))"

fun name_scan :: "string list \<Rightarrow> string option \<Rightarrow> string option" where
  "name_scan [] name = name"
| "name_scan (line # lines) name =
     (let l = strip line in if name_line l then Some l else name_scan lines name)"

definition extract_cardholder_name :: "string \<Rightarrow> string option" where
  "extract_cardholder_name text =
     (let name = labelled_name text
      in if \<not> truthy name then name_scan (take 12 (splitlines text)) name else name)"

subsection \<open>Candidates and the result\<close>

definition candidate_dates :: "string \<Rightarrow> string list" where
  "candidate_dates text = map (\<lambda>dm. group dm 0) (finditer DATE_RE text)"

definition candidate_amounts :: "string \<Rightarrow> string list" where
  "candidate_amounts text = map (\<lambda>am. remove_commas (group am 1)) (finditer AMOUNT_RE text)"

definition extract_datapoints_from_text :: "string \<Rightarrow> extraction" where
  "extract_datapoints_from_text text =
     \<lparr>cardholder_name = extract_cardholder_name text,
      statement_date = extract_statement_date text,
      payment_due_date = extract_payment_due_date text,
      total_amount_due = extract_total_amount_due text,
      card_last4 = extract_card_last4 text,
      candidates = \<lparr>dates = candidate_dates text, amounts = candidate_amounts text\<rparr>\<rparr>"

section \<open>Notions used in the statements\<close>

text \<open>A decimal numeral without sign: digits, then possibly a point and more digits.\<close>

definition is_decimal :: "string \<Rightarrow> bool" where
  "is_decimal s =
     (takeWhile isdigit s \<noteq> []
      \<and> (case dropWhile isdigit s of
           [] \<Rightarrow> True
         | c # ds \<Rightarrow> c = CHR ''.'' \<and> ds \<noteq> [] \<and> list_all isdigit ds))"

text \<open>The substrings of four characters that are all digits, and the calendar years.\<close>

definition four_digit_substrings :: "string \<Rightarrow> string list" where
  "four_digit_substrings text =
     filter (list_all isdigit) (map (\<lambda>i. take 4 (drop i text)) [0..<length text - 3])"

definition is_year :: "string \<Rightarrow> bool" where
  "is_year d = (1900 \<le> int_of d \<and> int_of d \<le> 2099)"

text \<open>
  \<open>unmatched r s n\<close>: the pattern \<open>r\<close> matches at none of the first \<open>n\<close> offsets of the
  subject \<open>s\<close>.
\<close>

fun unmatched_from :: "re \<Rightarrow> char option \<Rightarrow> nat \<Rightarrow> string \<Rightarrow> nat \<Rightarrow> bool" where
  "unmatched_from r pv i s 0 = True"
| "unmatched_from r pv i [] (Suc n) = (match_at r pv i [] = None)"
| "unmatched_from r pv i (c # cs) (Suc n) =
     (match_at r pv i (c # cs) = None \<and> unmatched_from r (Some c) (Suc i) cs n)"

definition unmatched :: "re \<Rightarrow> string \<Rightarrow> nat \<Rightarrow> bool" where
  "unmatched r s n = unmatched_from r None 0 s n"

text \<open>The state after \<open>k\<close> more characters of the subject.\<close>

definition advance :: "nat \<Rightarrow> mstate \<Rightarrow> mstate" where
  "advance k st =
     st\<lparr>pos := pos st + k,
        prev := (if k = 0 then prev st else Some (rest st ! (k - 1))),
        rest := drop k (rest st)\<rparr>"

text \<open>
  The characters that can follow a masked number inside the run \<^verbatim>\<open>[*Xx0-9\s\-]{0,20}\<close>
  without being a digit.
\<close>

definition mask_gap :: "char \<Rightarrow> bool" where
  "mask_gap c = (ismask c \<or> isspace c \<or> c = CHR ''-'')"

text \<open>A match reported at offsets moved by \<open>k\<close>.\<close>

definition shift :: "nat \<Rightarrow> rmatch \<Rightarrow> rmatch" where
  "shift k m = m\<lparr>mstart := mstart m + k, mend := mend m + k\<rparr>"

text \<open>
  The words a pattern can consume, with the zero-width tests left out: the matcher only
  consumes such words (\<open>ms_sound\<close> below).
\<close>

primrec lang :: "re \<Rightarrow> string set" where
  "lang (Cls p) = {[c] | c. p c}"
| "lang (Seq a b) = {u @ v | u v. u \<in> lang a \<and> v \<in> lang b}"
| "lang (Alt a b) = lang a \<union> lang b"
| "lang (Rep r lo hi) =
     {concat ws | ws. set ws \<subseteq> lang r \<and> lo \<le> length ws
        \<and> (case hi of None \<Rightarrow> True | Some h \<Rightarrow> length ws \<le> h)}"
| "lang (Grp n r) = lang r"
| "lang Bnd = {[]}"
| "lang Bos = {[]}"
| "lang Eos = {[]}"

section \<open>Evaluating the model\<close>

text \<open>
  The character tables on the bits of a character, and the matcher on the named patterns,
  unfolded only where a pattern meets a state: rewriting with the rules \<open>ev\<close> computes the
  model on a given text.
\<close>

named_theorems ev

lemma fields [ev]:
  "cardholder_name (extract_datapoints_from_text t) = extract_cardholder_name t"
  "statement_date (extract_datapoints_from_text t) = extract_statement_date t"
  "payment_due_date (extract_datapoints_from_text t) = extract_payment_due_date t"
  "total_amount_due (extract_datapoints_from_text t) = extract_total_amount_due t"
  "card_last4 (extract_datapoints_from_text t) = extract_card_last4 t"
  "dates (candidates (extract_datapoints_from_text t)) = candidate_dates t"
  "amounts (candidates (extract_datapoints_from_text t)) = candidate_amounts t"
  by (simp_all add: extract_datapoints_from_text_def)

lemma isspace_Char [ev]: "isspace (Char b0 b1 b2 b3 b4 b5 b6 b7) = (if b7 then (\<not> b6 \<and> (if b5 then (\<not> b4 \<and> (\<not> b3 \<and> (\<not> b2 \<and> (\<not> b1 \<and> \<not> b0)))) else (\<not> b4 \<and> (\<not> b3 \<and> (b2 \<and> (\<not> b1 \<and> b0)))))) else (\<not> b6 \<and> (if b5 then (\<not> b4 \<and> (\<not> b3 \<and> (\<not> b2 \<and> (\<not> b1 \<and> \<not> b0)))) else (if b4 then (b3 \<and> b2) else (b3 \<and> (if b2 then \<not> b1 else (b1 \<or> b0)))))))"
  by (cases b0; cases b1; cases b2; cases b3; cases b4; cases b5; cases b6; cases b7; simp add: isspace_def code_def)
lemma isdigit_Char [ev]: "isdigit (Char b0 b1 b2 b3 b4 b5 b6 b7) = (\<not> b7 \<and> (\<not> b6 \<and> (b5 \<and> (b4 \<and> (\<not> b3 \<or> (\<not> b2 \<and> \<not> b1))))))"
  by (cases b0; cases b1; cases b2; cases b3; cases b4; cases b5; cases b6; cases b7; simp add: isdigit_def code_def)
lemma isAZ_Char [ev]: "isAZ (Char b0 b1 b2 b3 b4 b5 b6 b7) = (\<not> b7 \<and> (b6 \<and> (\<not> b5 \<and> (if b4 then (\<not> b3 \<or> (\<not> b2 \<and> (\<not> b1 \<or> \<not> b0))) else (b3 \<or> (b2 \<or> (b1 \<or> b0)))))))"
  by (cases b0; cases b1; cases b2; cases b3; cases b4; cases b5; cases b6; cases b7; simp add: isAZ_def code_def)
lemma isaz_Char [ev]: "isaz (Char b0 b1 b2 b3 b4 b5 b6 b7) = (\<not> b7 \<and> (b6 \<and> (b5 \<and> (if b4 then (\<not> b3 \<or> (\<not> b2 \<and> (\<not> b1 \<or> \<not> b0))) else (b3 \<or> (b2 \<or> (b1 \<or> b0)))))))"
  by (cases b0; cases b1; cases b2; cases b3; cases b4; cases b5; cases b6; cases b7; simp add: isaz_def code_def)
lemma isword_Char [ev]: "isword (Char b0 b1 b2 b3 b4 b5 b6 b7) = (if b7 then (if b6 then (\<not> b4 \<or> (b3 \<or> (\<not> b2 \<or> (\<not> b1 \<or> \<not> b0)))) else (b5 \<and> (if b4 then (if b3 then (if b2 then (\<not> b1 \<or> \<not> b0) else (if b1 then \<not> b0 else b0)) else (if b2 then (\<not> b1 \<and> b0) else b1)) else (b3 \<and> (\<not> b2 \<and> (b1 \<and> \<not> b0)))))) else (if b6 then (if b5 then (if b4 then (\<not> b3 \<or> (\<not> b2 \<and> (\<not> b1 \<or> \<not> b0))) else (b3 \<or> (b2 \<or> (b1 \<or> b0)))) else (if b4 then (\<not> b3 \<or> (if b2 then (b1 \<and> b0) else (\<not> b1 \<or> \<not> b0))) else (b3 \<or> (b2 \<or> (b1 \<or> b0))))) else (b5 \<and> (b4 \<and> (\<not> b3 \<or> (\<not> b2 \<and> \<not> b1))))))"
  by (cases b0; cases b1; cases b2; cases b3; cases b4; cases b5; cases b6; cases b7; simp add: isword_def isdigit_def isAZ_def isaz_def code_def)
lemma isupper_Char [ev]: "isupper (Char b0 b1 b2 b3 b4 b5 b6 b7) = (if b7 then (b6 \<and> (\<not> b5 \<and> (\<not> b4 \<or> (\<not> b2 \<or> (\<not> b1 \<or> \<not> b0))))) else (b6 \<and> (\<not> b5 \<and> (if b4 then (\<not> b3 \<or> (\<not> b2 \<and> (\<not> b1 \<or> \<not> b0))) else (b3 \<or> (b2 \<or> (b1 \<or> b0)))))))"
  by (cases b0; cases b1; cases b2; cases b3; cases b4; cases b5; cases b6; cases b7; simp add: isupper_def isAZ_def code_def)
lemma islinebreak_Char [ev]: "islinebreak (Char b0 b1 b2 b3 b4 b5 b6 b7) = (if b7 then (\<not> b6 \<and> (\<not> b5 \<and> (\<not> b4 \<and> (\<not> b3 \<and> (b2 \<and> (\<not> b1 \<and> b0)))))) else (\<not> b6 \<and> (\<not> b5 \<and> (if b4 then (b3 \<and> (b2 \<and> (\<not> b1 \<or> \<not> b0))) else (b3 \<and> (if b2 then \<not> b1 else b1))))))"
  by (cases b0; cases b1; cases b2; cases b3; cases b4; cases b5; cases b6; cases b7; simp add: islinebreak_def code_def)
lemma lower_chr_Char [ev]: "lower_chr (Char b0 b1 b2 b3 b4 b5 b6 b7) = (if isupper (Char b0 b1 b2 b3 b4 b5 b6 b7) then Char b0 b1 b2 b3 b4 True b6 b7 else Char b0 b1 b2 b3 b4 b5 b6 b7)"
  by (simp add: lower_chr_def)

lemma ismask_Char [ev]: "ismask (Char b0 b1 b2 b3 b4 b5 b6 b7) = (Char b0 b1 b2 b3 b4 b5 b6 b7 = CHR ''*'' \<or> Char b0 b1 b2 b3 b4 b5 b6 b7 = CHR ''X'' \<or> Char b0 b1 b2 b3 b4 b5 b6 b7 = CHR ''x'')"
  by (simp only: ismask_def)
lemmas [ev] = mask_tail_def name_char_def word_char_def above_range_def

lemma ms_spaces [ev]: "ms spaces st = ms (star (Cls isspace)) st"
  by (simp only: spaces_def)
lemma ms_digits1 [ev]: "ms digits1 st = ms (plus1 (Cls isdigit)) st"
  by (simp only: digits1_def)
lemma ms_fraction [ev]: "ms fraction st = ms (opt (Seq (chr CHR ''.'') digits1)) st"
  by (simp only: fraction_def)
lemma ms_thousands [ev]: "ms thousands st = ms (Seq (chr CHR '','') (Rep (Cls isdigit) 3 (Some 3))) st"
  by (simp only: thousands_def)
lemma ms_grouped_numeral [ev]: "ms grouped_numeral st = ms (seqs [Rep (Cls isdigit) 1 (Some 3), star thousands, fraction]) st"
  by (simp only: grouped_numeral_def)
lemma ms_plain_numeral [ev]: "ms plain_numeral st = ms (Seq digits1 fraction) st"
  by (simp only: plain_numeral_def)
lemma ms_currency [ev]: "ms currency st = ms (alts [Seq (lit ''Rs'') (opt (chr CHR ''.'')), lit ''INR'', Cls above_range]) st"
  by (simp only: currency_def)
lemma ms_AMOUNT_RE [ev]: "ms AMOUNT_RE st = ms (seqs [opt currency, spaces, Grp 1 (Alt grouped_numeral plain_numeral)]) st"
  by (simp only: AMOUNT_RE_def)
lemma ms_sep [ev]: "ms sep st = ms (Cls (\<lambda>c. c = CHR ''/'' \<or> c = CHR ''-'')) st"
  by (simp only: sep_def)
lemma ms_digits_1_2 [ev]: "ms digits_1_2 st = ms (Rep (Cls isdigit) 1 (Some 2)) st"
  by (simp only: digits_1_2_def)
lemma ms_digits_2_4 [ev]: "ms digits_2_4 st = ms (Rep (Cls isdigit) 2 (Some 4)) st"
  by (simp only: digits_2_4_def)
lemma ms_numeric_date [ev]: "ms numeric_date st = ms (seqs [digits_1_2, sep, digits_1_2, sep, digits_2_4]) st"
  by (simp only: numeric_date_def)
lemma ms_month_name [ev]: "ms month_name st = ms (alts (map lit_i [''Jan'', ''Feb'', ''Mar'', ''Apr'', ''May'', ''Jun'', ''Jul'', ''Aug'', ''Sep'', ''Sept'', ''Oct'', ''Nov'', ''Dec''])) st"
  by (simp only: month_name_def)
lemma ms_letter_i [ev]: "ms letter_i st = ms (Cls (\<lambda>c. isaz (lower_chr c))) st"
  by (simp only: letter_i_def)
lemma ms_month [ev]: "ms month st = ms (Seq month_name (star letter_i)) st"
  by (simp only: month_def)
lemma ms_spaces1 [ev]: "ms spaces1 st = ms (plus1 (Cls isspace)) st"
  by (simp only: spaces1_def)
lemma ms_date_alt1 [ev]: "ms date_alt1 st = ms (seqs [Bnd, numeric_date, Bnd]) st"
  by (simp only: date_alt1_def)
lemma ms_date_alt2 [ev]: "ms date_alt2 st = ms (seqs [Bnd, digits_1_2, spaces1, month, opt (Cls (\<lambda>c. c = CHR ''.'' \<or> c = CHR '','')), spaces1, digits_2_4, Bnd]) st"
  by (simp only: date_alt2_def)
lemma ms_date_alt3 [ev]: "ms date_alt3 st = ms (seqs [Bnd, month, spaces1, digits_1_2, opt (chr CHR '',''), spaces1, digits_2_4, Bnd]) st"
  by (simp only: date_alt3_def)
lemma ms_DATE_RE [ev]: "ms DATE_RE st = ms (Grp 1 (alts [date_alt1, date_alt2, date_alt3])) st"
  by (simp only: DATE_RE_def)
lemma ms_four_re [ev]: "ms four_re st = ms (Rep (Cls isdigit) 4 (Some 4)) st"
  by (simp only: four_re_def)
lemma ms_masked_re [ev]: "ms masked_re st = ms (Grp 1 (seqs [Rep (Cls ismask) 2 None, Rep (Cls mask_tail) 0 (Some 20), Grp 2 four_re])) st"
  by (simp only: masked_re_def)
lemma ms_four_grp_re [ev]: "ms four_grp_re st = ms (Grp 1 four_re) st"
  by (simp only: four_grp_re_def)
lemma ms_card_re [ev]: "ms card_re st = ms (alts [Seq (lit ''card'') Bnd, lit ''card no'', lit ''card number'', lit ''card account'']) st"
  by (simp only: card_re_def)
lemma ms_colon_or_hyphen [ev]: "ms colon_or_hyphen st = ms (Cls (\<lambda>c. c = CHR '':'' \<or> c = CHR ''-'')) st"
  by (simp only: colon_or_hyphen_def)
lemma ms_total_kw1 [ev]: "ms total_kw1 st = ms (seqs [lit ''total'', spaces, opt (Seq (lit ''amount'') spaces), lit ''due'']) st"
  by (simp only: total_kw1_def)
lemma ms_total_kw2 [ev]: "ms total_kw2 st = ms (seqs [lit ''total'', spaces, lit ''dues'']) st"
  by (simp only: total_kw2_def)
lemma ms_total_kw3 [ev]: "ms total_kw3 st = ms (seqs [lit ''total'', spaces, lit ''payment'', spaces, lit ''due'']) st"
  by (simp only: total_kw3_def)
lemma ms_total_kw4 [ev]: "ms total_kw4 st = ms (seqs [lit ''your'', spaces, lit ''total'', spaces, lit ''amount'', spaces, lit ''due'']) st"
  by (simp only: total_kw4_def)
lemma ms_total_kw5 [ev]: "ms total_kw5 st = ms (seqs [lit ''total'', spaces, lit ''dues'', spaces, opt colon_or_hyphen]) st"
  by (simp only: total_kw5_def)
lemma ms_total_kw6 [ev]: "ms total_kw6 st = ms (seqs [lit ''total'', spaces, lit ''amount'', spaces, lit ''payable'']) st"
  by (simp only: total_kw6_def)
lemma ms_total_kw7 [ev]: "ms total_kw7 st = ms (seqs [lit ''total'', spaces, lit ''payment'']) st"
  by (simp only: total_kw7_def)
lemma ms_total_kw8 [ev]: "ms total_kw8 st = ms (seqs [lit ''total'', spaces, chr CHR ''d'', Grp 1 (Alt (lit ''ue'') (lit ''ues'')), Bnd]) st"
  by (simp only: total_kw8_def)
lemma ms_space_or_word [ev]: "ms space_or_word st = ms (Cls (\<lambda>c. isspace c \<or> isword c)) st"
  by (simp only: space_or_word_def)
lemma ms_total_fallback_re [ev]: "ms total_fallback_re st = ms (Grp 1 (Alt (seqs [lit ''total'', Rep space_or_word 0 (Some 20), lit ''due'']) (seqs [lit ''total'', Rep space_or_word 0 (Some 20), lit ''dues'']))) st"
  by (simp only: total_fallback_re_def)
lemma ms_due_pat1 [ev]: "ms due_pat1 st = ms (seqs [lit ''payment'', spaces, lit ''due'', spaces, lit ''date'']) st"
  by (simp only: due_pat1_def)
lemma ms_due_pat2 [ev]: "ms due_pat2 st = ms (seqs [lit ''due'', spaces, lit ''date'']) st"
  by (simp only: due_pat2_def)
lemma ms_due_pat3 [ev]: "ms due_pat3 st = ms (seqs [lit ''payment'', spaces, lit ''due'', Bnd]) st"
  by (simp only: due_pat3_def)
lemma ms_due_pat4 [ev]: "ms due_pat4 st = ms (seqs [lit ''payment'', spaces, lit ''due'', spaces, opt colon_or_hyphen]) st"
  by (simp only: due_pat4_def)
lemma ms_due_pat5 [ev]: "ms due_pat5 st = ms (seqs [lit ''payment'', spaces, lit ''due'', spaces]) st"
  by (simp only: due_pat5_def)
lemma ms_immediate_re [ev]: "ms immediate_re st = ms (Grp 1 (alts [lit_i ''immediat'', lit_i ''immediate'', lit_i ''immediately'', lit_i ''immediately''])) st"
  by (simp only: immediate_re_def)
lemma ms_statement_pat1 [ev]: "ms statement_pat1 st = ms (seqs [lit ''statement'', spaces, lit ''date'']) st"
  by (simp only: statement_pat1_def)
lemma ms_statement_pat2 [ev]: "ms statement_pat2 st = ms (seqs [lit ''statement'', spaces, lit ''generation'', spaces, lit ''date'']) st"
  by (simp only: statement_pat2_def)
lemma ms_statement_pat3 [ev]: "ms statement_pat3 st = ms (seqs [lit ''statement'', spaces, lit ''period'']) st"
  by (simp only: statement_pat3_def)
lemma ms_statement_pat4 [ev]: "ms statement_pat4 st = ms (seqs [lit ''statement'', spaces, lit ''for'']) st"
  by (simp only: statement_pat4_def)
lemma ms_hyphen_or_dash [ev]: "ms hyphen_or_dash st = ms (Cls (\<lambda>c. c = CHR ''-'' \<or> above_range c)) st"
  by (simp only: hyphen_or_dash_def)
lemma ms_date_range_re [ev]: "ms date_range_re st = ms (Grp 1 (seqs [numeric_date, spaces, hyphen_or_dash, spaces, numeric_date])) st"
  by (simp only: date_range_re_def)
lemma ms_name_capture [ev]: "ms name_capture st = ms (Grp 1 (Seq (Cls isAZ) (Rep (Cls name_char) 2 (Some 100)))) st"
  by (simp only: name_capture_def)
lemma ms_name_re [ev]: "ms name_re st = ms (seqs [Bnd, lit ''Name'', spaces, colon_or_hyphen, spaces, name_capture]) st"
  by (simp only: name_re_def)
lemma ms_customer_name_re [ev]: "ms customer_name_re st = ms (seqs [Bnd, lit ''Customer'', spaces1, lit ''Name'', spaces, opt colon_or_hyphen, spaces, name_capture]) st"
  by (simp only: customer_name_re_def)
lemma ms_digit_re [ev]: "ms digit_re st = ms (Cls isdigit) st"
  by (simp only: digit_re_def)
lemma ms_word_shape_re [ev]: "ms word_shape_re st = ms (seqs [Bos, Cls isAZ, Rep (Cls word_char) 1 None, Eos]) st"
  by (simp only: word_shape_re_def)
lemma ms_generic_re [ev]: "ms generic_re st = ms (Grp 1 (alts (map lit_i [''statement'', ''payment'', ''due'', ''account'', ''page'', ''customer'', ''bank'', ''credit'', ''statement date'']))) st"
  by (simp only: generic_re_def)
lemma ms_seqs2 [ev]: "ms (seqs (r # r' # rs)) st = concat (map (ms (seqs (r' # rs))) (ms r st))"
  by simp
lemma ms_seqs1 [ev]: "ms (seqs [r]) st = ms r st"
  by simp
lemma ms_alts2 [ev]: "ms (alts (r # r' # rs)) st = ms r st @ ms (alts (r' # rs)) st"
  by simp
lemma ms_alts1 [ev]: "ms (alts [r]) st = ms r st"
  by simp
lemma ms_chr [ev]: "ms (chr c) st = (case rest st of [] \<Rightarrow> [] | x # xs \<Rightarrow> if x = c then [st\<lparr>pos := Suc (pos st), prev := Some x, rest := xs\<rparr>] else [])"
  by (simp add: chr_def)
lemma ms_chr_i [ev]: "ms (chr_i c) st = (case rest st of [] \<Rightarrow> [] | x # xs \<Rightarrow> if lower_chr x = lower_chr c then [st\<lparr>pos := Suc (pos st), prev := Some x, rest := xs\<rparr>] else [])"
  by (simp add: chr_i_def)
lemma ms_lit2 [ev]: "ms (lit (c # c' # cs)) st = concat (map (ms (lit (c' # cs))) (ms (chr c) st))"
  by (simp add: lit_def)
lemma ms_lit1 [ev]: "ms (lit [c]) st = ms (chr c) st"
  by (simp add: lit_def)
lemma ms_lit_i2 [ev]: "ms (lit_i (c # c' # cs)) st = concat (map (ms (lit_i (c' # cs))) (ms (chr_i c) st))"
  by (simp add: lit_i_def)
lemma ms_lit_i1 [ev]: "ms (lit_i [c]) st = ms (chr_i c) st"
  by (simp add: lit_i_def)
lemma ms_opt [ev]: "ms (opt r) st = concat (map (many (ms r) 0 0) (ms r st)) @ [st]"
  by (simp add: opt_def)
lemma ms_star [ev]: "ms (star r) st = many (ms r) 0 (length (rest st)) st"
  by (simp add: star_def)
lemma ms_plus1 [ev]: "ms (plus1 r) st = many (ms r) 1 (length (rest st)) st"
  by (simp add: plus1_def)
lemma many_0_0 [ev]: "many f 0 0 st = [st]" by simp
lemma many_pos_0 [ev]: "many f (Suc l) 0 st = []" "many f (numeral k) 0 st = []" "many f 1 0 st = []" by simp_all
lemma many_0_Suc [ev]: "many f 0 (Suc hi) st = concat (map (many f 0 hi) (f st)) @ [st]" by simp
lemma many_1_Suc [ev]: "many f 1 (Suc hi) st = concat (map (many f 0 hi) (f st))" by simp
lemma many_Suc_Suc [ev]: "many f (Suc l) (Suc hi) st = concat (map (many f l hi) (f st))" by simp
lemma many_num_Suc [ev]: "many f (numeral l) (Suc hi) st = concat (map (many f (pred_numeral l) hi) (f st))"
  by (simp add: numeral_eq_Suc)
lemma many_0_num [ev]: "many f 0 (numeral k) st = concat (map (many f 0 (pred_numeral k)) (f st)) @ [st]"
  by (simp add: numeral_eq_Suc)
lemma many_1_num [ev]: "many f 1 (numeral k) st = concat (map (many f 0 (pred_numeral k)) (f st))"
  by (simp add: numeral_eq_Suc)
lemma many_Suc_num [ev]: "many f (Suc l) (numeral k) st = concat (map (many f l (pred_numeral k)) (f st))"
  by (simp add: numeral_eq_Suc)
lemma many_num_num [ev]: "many f (numeral l) (numeral k) st = concat (map (many f (pred_numeral l) (pred_numeral k)) (f st))"
  by (simp add: numeral_eq_Suc)
lemma many_0_1 [ev]: "many f 0 1 st = concat (map (many f 0 0) (f st)) @ [st]"
  unfolding One_nat_def by simp
lemma many_1_1 [ev]: "many f 1 1 st = concat (map (many f 0 0) (f st))"
  unfolding One_nat_def by simp
lemma many_num_1 [ev]: "many f (numeral l) 1 st = concat (map (many f (pred_numeral l) 0) (f st))"
  unfolding One_nat_def by (simp add: numeral_eq_Suc)
lemma ms_Rep_Some [ev]: "ms (Rep r lo (Some h)) st = many (ms r) lo h st" by simp
lemma ms_Rep_None [ev]: "ms (Rep r lo None) st = many (ms r) lo (length (rest st)) st" by simp
lemma take_Cons_num [ev]: "take (numeral v) (x # xs) = x # take (pred_numeral v) xs"
  by (simp add: numeral_eq_Suc)
lemma drop_Cons_num [ev]: "drop (numeral v) (x # xs) = drop (pred_numeral v) xs"
  by (simp add: numeral_eq_Suc)
lemma concat_map_Nil [ev]: "concat (map f []) = []" by simp
lemma concat_map_Cons [ev]: "concat (map f (x # xs)) = f x @ concat (map f xs)" by simp
lemmas [ev] = ms.simps(1,2,3,5,6,7,8) at_boundary_def start_state_def mk_match_def match_at_def
  scan.simps re_search_def re_match_def iter.simps finditer_def group_def
  mstate.simps rmatch.simps list.simps option.simps char.inject simp_thms if_True if_False
  append.simps append_Nil2 take_Suc_Cons take_0 take.simps(1) drop_Suc_Cons drop_0 drop.simps(1) eq_numeral_Suc Suc_eq_numeral
  list.size(3) length_Cons nat.inject nat.distinct diff_Suc_Suc diff_0_eq_0 minus_nat.diff_0 diff_Suc_1
  pred_numeral_simps BitM.simps numeral_One fun_upd_apply
  rel_simps Suc_le_mono le0 le_zero_eq Suc_less_eq zero_less_Suc less_nat_zero_code
  add_diff_cancel_left' One_nat_def not_Cons_self2 map_option_case
  lower_def slice_def truthy_def remove_commas_def strip_def split_def splitlines_def
  split_acc.simps lines_acc.simps filter.simps rev.simps dropWhile.simps concat.simps
lemmas [ev] = extract_payment_due_date_def due_pattern_loop.simps due_matches.simps due_patterns_def
  extract_total_amount_due_def total_keyword_loop.simps total_matches.simps total_fallback.simps total_keywords_def find_amount_near_def
  extract_statement_date_def statement_pattern_loop.simps statement_matches.simps statement_patterns_def
  extract_cardholder_name_def labelled_name_def name_line_def name_scan.simps
  extract_card_last4_def possible_last4_def non_year_fours_def nearest.simps nearest_all.simps
  candidate_dates_def candidate_amounts_def Let_def
  le_Suc_numeral le_numeral_Suc less_Suc_numeral less_numeral_Suc diff_Suc_numeral diff_numeral_Suc
lemmas evc = if_weak_cong list.case_cong_weak option.case_cong_weak let_weak_cong

lemma replicate_num [ev]: "replicate (numeral k) x = x # replicate (pred_numeral k) x"
  by (simp add: numeral_eq_Suc)

lemmas [ev] = replicate.simps

section \<open>The empty text\<close>

text \<open>
  Claim C7. Applied to the empty string, \<open>extract_datapoints_from_text\<close> returns a result
  in which the five primary fields are all \<open>None\<close> and both candidate sequences are empty.
  (The model is a total function: no branch of the source raises on this input.)
\<close>

theorem extract_empty_text:
  "extract_datapoints_from_text [] =
     \<lparr>cardholder_name = None, statement_date = None, payment_due_date = None,
      total_amount_due = None, card_last4 = None,
      candidates = \<lparr>dates = [], amounts = []\<rparr>\<rparr>"
  by (simp only: extract_datapoints_from_text_def ev cong: evc)

section \<open>Properties of the matcher\<close>

subsection \<open>What the matcher consumes\<close>

lemma many_sound:
  assumes f: "\<And>s s'. s' \<in> set (f s) \<Longrightarrow> \<exists>w\<in>L. rest s = w @ rest s' \<and> pos s' = pos s + length w"
  shows "st' \<in> set (many f lo hi st) \<Longrightarrow>
         \<exists>ws. set ws \<subseteq> L \<and> lo \<le> length ws \<and> length ws \<le> hi
              \<and> rest st = concat ws @ rest st' \<and> pos st' = pos st + length (concat ws)"
proof (induction hi arbitrary: lo st)
  case 0
  then have "lo = 0" "st' = st" by (auto split: if_splits)
  then show ?case by (intro exI[of _ "[]"]) simp
next
  case (Suc hi)
  from Suc.prems consider
    (step) s1 where "s1 \<in> set (f st)" "st' \<in> set (many f (lo - 1) hi s1)"
  | (stop) "lo = 0" "st' = st"
    by (auto split: if_splits)
  then show ?case
  proof cases
    case step
    from f[OF step(1)] obtain w where w: "w \<in> L" "rest st = w @ rest s1" "pos s1 = pos st + length w"
      by blast
    from Suc.IH[OF step(2)] obtain ws where ws: "set ws \<subseteq> L" "lo - 1 \<le> length ws" "length ws \<le> hi"
      "rest s1 = concat ws @ rest st'" "pos st' = pos s1 + length (concat ws)"
      by blast
    show ?thesis
      using w ws by (intro exI[of _ "w # ws"]) auto
  next
    case stop
    then show ?thesis by (intro exI[of _ "[]"]) simp
  qed
qed

lemma ms_sound:
  "st' \<in> set (ms r st) \<Longrightarrow> \<exists>w\<in>lang r. rest st = w @ rest st' \<and> pos st' = pos st + length w"
proof (induction r arbitrary: st st')
  case (Cls p)
  then show ?case by (auto split: list.splits if_splits)
next
  case (Seq a b)
  from Seq.prems obtain s1 where s1: "s1 \<in> set (ms a st)" "st' \<in> set (ms b s1)" by auto
  from Seq.IH(1)[OF s1(1)] obtain u where u: "u \<in> lang a" "rest st = u @ rest s1" "pos s1 = pos st + length u"
    by blast
  from Seq.IH(2)[OF s1(2)] obtain v where v: "v \<in> lang b" "rest s1 = v @ rest st'" "pos st' = pos s1 + length v"
    by blast
  have "u @ v \<in> lang (Seq a b)" using u(1) v(1) by auto
  moreover have "rest st = (u @ v) @ rest st'" "pos st' = pos st + length (u @ v)"
    using u v by simp_all
  ultimately show ?case by blast
next
  case (Alt a b)
  from Alt.prems have "st' \<in> set (ms a st) \<or> st' \<in> set (ms b st)" by simp
  then show ?case
  proof
    assume "st' \<in> set (ms a st)"
    from Alt.IH(1)[OF this] show ?thesis by auto
  next
    assume "st' \<in> set (ms b st)"
    from Alt.IH(2)[OF this] show ?thesis by auto
  qed
next
  case (Rep r lo hi)
  have "st' \<in> set (many (ms r) lo (case hi of None \<Rightarrow> length (rest st) | Some h \<Rightarrow> h) st)"
    using Rep.prems by simp
  from many_sound[of "ms r" "lang r", OF Rep.IH this]
  obtain ws where ws: "set ws \<subseteq> lang r" "lo \<le> length ws"
    "length ws \<le> (case hi of None \<Rightarrow> length (rest st) | Some h \<Rightarrow> h)"
    "rest st = concat ws @ rest st'" "pos st' = pos st + length (concat ws)"
    by blast
  then show ?case
    by (cases hi) (auto intro!: exI[of _ ws])
next
  case (Grp n r)
  then show ?case by auto
next
  case Bnd
  then show ?case by (auto split: if_splits)
next
  case Bos
  then show ?case by (auto split: if_splits)
next
  case Eos
  then show ?case by (auto split: if_splits)
qed

lemma ms_Grp_captures:
  assumes "st' \<in> set (ms (Grp n r) st)"
  shows "\<exists>w\<in>lang r. grp st' n = Some w \<and> rest st = w @ rest st'"
proof -
  from assms obtain s where s: "s \<in> set (ms r st)"
    "st' = s\<lparr>grp := (grp s)(n \<mapsto> take (pos s - pos st) (rest st))\<rparr>" by auto
  from ms_sound[OF s(1)] obtain w where "w \<in> lang r" "rest st = w @ rest s" "pos s = pos st + length w"
    by blast
  with s(2) show ?thesis by auto
qed

lemma ms_seqs_last:
  "st' \<in> set (ms (seqs (rs @ [r])) st) \<Longrightarrow> \<exists>s. st' \<in> set (ms r s)"
proof (induction rs arbitrary: st)
  case Nil
  then show ?case by auto
next
  case (Cons a rs)
  have "seqs ((a # rs) @ [r]) = Seq a (seqs (rs @ [r]))"
    by (cases rs) simp_all
  with Cons.prems obtain s1 where "st' \<in> set (ms (seqs (rs @ [r])) s1)" by auto
  then show ?case by (rule Cons.IH)
qed

subsection \<open>Where a reported match comes from\<close>

lemma match_at_Some:
  assumes "match_at r pv i s = Some m"
  shows "\<exists>st'\<in>set (ms r (start_state pv i s)). m = mk_match i s st'"
  using assms by (auto simp: match_at_def split: list.splits)

lemma match_at_group0:
  assumes "match_at r pv i s = Some m"
  shows "mstart m = i \<and> (\<exists>w\<in>lang r. group m 0 = w \<and> mend m = i + length w \<and> (\<exists>t. s = w @ t))"
proof -
  from match_at_Some[OF assms] obtain st' where st': "st' \<in> set (ms r (start_state pv i s))"
    "m = mk_match i s st'" by blast
  from ms_sound[OF st'(1)] obtain w where "w \<in> lang r" "s = w @ rest st'" "pos st' = i + length w"
    by (auto simp: start_state_def)
  with st'(2) show ?thesis
    by (auto simp: mk_match_def group_def)
qed

lemma scan_Some:
  "scan r pv i s = Some m \<Longrightarrow> \<exists>k pv'. k \<le> length s \<and> match_at r pv' (i + k) (drop k s) = Some m"
proof (induction s arbitrary: pv i)
  case Nil
  then show ?case by auto
next
  case (Cons c cs)
  show ?case
  proof (cases "match_at r pv i (c # cs)")
    case None
    with Cons.prems have "scan r (Some c) (Suc i) cs = Some m" by simp
    from Cons.IH[OF this] obtain k pv' where "k \<le> length cs" "match_at r pv' (Suc i + k) (drop k cs) = Some m"
      by blast
    then show ?thesis by (intro exI[of _ "Suc k"] exI[of _ pv']) simp
  next
    case (Some a)
    with Cons.prems have "match_at r pv i (c # cs) = Some m" by simp
    then show ?thesis by (intro exI[of _ "0::nat"] exI[of _ pv]) simp
  qed
qed

lemma iter_mem:
  "m \<in> set (iter r sk pv i s) \<Longrightarrow> \<exists>k pv'. k \<le> length s \<and> match_at r pv' (i + k) (drop k s) = Some m"
proof (induction s arbitrary: sk pv i)
  case Nil
  then have "match_at r pv i [] = Some m"
    by (cases "sk = 0"; cases "match_at r pv i []") simp_all
  then show ?case by (intro exI[of _ "0::nat"] exI[of _ pv]) simp
next
  case (Cons c cs)
  from Cons.prems consider
    (here) "match_at r pv i (c # cs) = Some m"
  | (later) sk' where "m \<in> set (iter r sk' (Some c) (Suc i) cs)"
    by (auto split: if_splits option.splits)
  then show ?case
  proof cases
    case here
    then show ?thesis by (intro exI[of _ "0::nat"] exI[of _ pv]) simp
  next
    case later
    from Cons.IH[OF this] obtain k pv' where "k \<le> length cs" "match_at r pv' (Suc i + k) (drop k cs) = Some m"
      by blast
    then show ?thesis by (intro exI[of _ "Suc k"] exI[of _ pv']) simp
  qed
qed

lemma scan_None:
  "scan r pv i s = None \<Longrightarrow> match_at r pv i s = None"
  by (cases s) (auto split: option.splits)

lemma scan_Cls_None:
  "scan (Cls p) pv i s = None \<Longrightarrow> c \<in> set s \<Longrightarrow> \<not> p c"
proof (induction s arbitrary: pv i)
  case Nil
  then show ?case by simp
next
  case (Cons a s)
  from Cons.prems(1) have a: "match_at (Cls p) pv i (a # s) = None" and s: "scan (Cls p) (Some a) (Suc i) s = None"
    by (auto split: option.splits)
  from a have "\<not> p a" by (auto simp: match_at_def start_state_def split: if_splits)
  with Cons.IH[OF s] Cons.prems(2) show ?case by auto
qed

lemma iter_Nil_no_match:
  "iter r 0 pv i s = [] \<Longrightarrow> k \<le> length s \<Longrightarrow>
   match_at r (if k = 0 then pv else Some (s ! (k - 1))) (i + k) (drop k s) = None"
proof (induction s arbitrary: pv i k)
  case Nil
  then show ?case by (auto split: option.splits)
next
  case (Cons c cs)
  from Cons.prems(1) have h: "match_at r pv i (c # cs) = None" and t: "iter r 0 (Some c) (Suc i) cs = []"
    by (auto split: option.splits)
  show ?case
  proof (cases k)
    case 0
    with h show ?thesis by simp
  next
    case (Suc j)
    with Cons.prems(2) have "j \<le> length cs" by simp
    from Cons.IH[OF t this] Suc show ?thesis by (cases j) auto
  qed
qed

subsection \<open>Skipping a prefix in which the pattern does not match\<close>

lemma scan_skip:
  "unmatched_from r pv i (xs @ ys) (length xs) \<Longrightarrow>
   scan r pv i (xs @ ys) = scan r (if xs = [] then pv else Some (last xs)) (i + length xs) ys"
  by (induction xs arbitrary: pv i) auto

lemma iter_skip:
  "unmatched_from r pv i (xs @ ys) (length xs) \<Longrightarrow>
   iter r 0 pv i (xs @ ys) = iter r 0 (if xs = [] then pv else Some (last xs)) (i + length xs) ys"
  by (induction xs arbitrary: pv i) auto

subsection \<open>Offsets are relative\<close>

lemma many_shift:
  assumes "\<And>s. f (s\<lparr>pos := pos s + k\<rparr>) = map (\<lambda>s. s\<lparr>pos := pos s + k\<rparr>) (f s)"
  shows "many f lo hi (st\<lparr>pos := pos st + k\<rparr>) = map (\<lambda>s. s\<lparr>pos := pos s + k\<rparr>) (many f lo hi st)"
  by (induction hi arbitrary: lo st) (simp_all add: assms map_concat comp_def)

lemma ms_shift:
  "ms r (st\<lparr>pos := pos st + k\<rparr>) = map (\<lambda>s. s\<lparr>pos := pos s + k\<rparr>) (ms r st)"
proof (induction r arbitrary: st)
  case (Cls p)
  then show ?case by (auto split: list.splits)
next
  case (Seq a b)
  then show ?case by (simp add: map_concat comp_def)
next
  case (Alt a b)
  then show ?case by simp
next
  case (Rep r lo hi)
  then show ?case by (cases hi) (simp_all add: many_shift)
next
  case (Grp n r)
  then show ?case by (simp add: comp_def)
next
  case Bnd
  then show ?case by (simp add: at_boundary_def)
next
  case Bos
  then show ?case by simp
next
  case Eos
  then show ?case by simp
qed

lemma match_at_shift:
  "match_at r pv i s = map_option (shift i) (match_at r pv 0 s)"
proof -
  have "start_state pv i s = (start_state pv 0 s)\<lparr>pos := pos (start_state pv 0 s) + i\<rparr>"
    by (simp add: start_state_def)
  then have "ms r (start_state pv i s) = map (\<lambda>s. s\<lparr>pos := pos s + i\<rparr>) (ms r (start_state pv 0 s))"
    by (simp only: ms_shift)
  then show ?thesis
    by (cases "ms r (start_state pv 0 s)") (auto simp: match_at_def mk_match_def shift_def)
qed

section \<open>The cardholder name has no digit\<close>

subsection \<open>Words of the character-class repetitions\<close>

lemma lang_Rep_Cls:
  assumes "w \<in> lang (Rep (Cls p) lo hi)"
  shows "list_all p w \<and> lo \<le> length w \<and> (case hi of None \<Rightarrow> True | Some h \<Rightarrow> length w \<le> h)"
proof -
  from assms obtain ws where ws: "w = concat ws" "set ws \<subseteq> {[c] | c. p c}" "lo \<le> length ws"
    "case hi of None \<Rightarrow> True | Some h \<Rightarrow> length ws \<le> h" by auto
  have "list_all p (concat ws) \<and> length (concat ws) = length ws" using ws(2)
    by (induction ws) auto
  with ws show ?thesis by (cases hi) auto
qed

lemma lang_SeqD:
  "w \<in> lang (Seq a b) \<Longrightarrow> \<exists>u v. w = u @ v \<and> u \<in> lang a \<and> v \<in> lang b"
  by auto

lemma lang_ClsD: "w \<in> lang (Cls p) \<Longrightarrow> \<exists>c. w = [c] \<and> p c"
  by auto

lemma set_strip: "set (strip s) \<subseteq> set s"
proof -
  have "set (dropWhile isspace (rev (dropWhile isspace s))) \<subseteq> set (rev (dropWhile isspace s))"
    by (rule set_dropWhileD[THEN subsetI]) 
  also have "\<dots> \<subseteq> set s" using set_dropWhileD[of _ isspace s] by auto
  finally show ?thesis by (simp add: strip_def)
qed

lemma not_digit_name_char: "name_char c \<Longrightarrow> \<not> isdigit c"
  by (auto simp: name_char_def isAZ_def isdigit_def isspace_def code_def)

lemma name_capture_no_digit:
  assumes "st' \<in> set (ms name_capture st)"
  shows "\<exists>w. grp st' 1 = Some w \<and> (\<forall>c\<in>set w. \<not> isdigit c)"
proof -
  from ms_Grp_captures[OF assms[unfolded name_capture_def]]
  obtain w where w: "w \<in> lang (Seq (Cls isAZ) (Rep (Cls name_char) 2 (Some 100)))" "grp st' 1 = Some w"
    by blast
  from lang_SeqD[OF w(1)] obtain u v where uv: "w = u @ v" "u \<in> lang (Cls isAZ)"
    "v \<in> lang (Rep (Cls name_char) 2 (Some 100))" by blast
  from lang_ClsD[OF uv(2)] uv obtain a where av: "w = [a] @ v" "isAZ a"
    "v \<in> lang (Rep (Cls name_char) 2 (Some 100))" by blast
  from lang_Rep_Cls[OF av(3)] have "list_all name_char v" by simp
  with av have "\<forall>c\<in>set w. name_char c" by (auto simp: list_all_iff name_char_def)
  with w(2) show ?thesis using not_digit_name_char by blast
qed

lemma search_group1:
  assumes "re_search r text = Some nm" and "r = seqs (rs @ [q])"
    and "\<And>st st'. st' \<in> set (ms q st) \<Longrightarrow> \<exists>w. grp st' 1 = Some w \<and> P w"
  shows "P (group nm 1)"
proof -
  from assms(1) scan_Some obtain k pv where "match_at r pv (0 + k) (drop k text) = Some nm"
    unfolding re_search_def by blast
  from match_at_Some[OF this] obtain st' where st': "st' \<in> set (ms r (start_state pv (0 + k) (drop k text)))"
    "nm = mk_match (0 + k) (drop k text) st'" by blast
  from st'(1) assms(2) ms_seqs_last obtain s where "st' \<in> set (ms q s)" by blast
  from assms(3)[OF this] obtain w where "grp st' 1 = Some w" "P w" by blast
  with st'(2) show ?thesis by (simp add: mk_match_def group_def)
qed

lemma labelled_name_no_digit:
  assumes "labelled_name text = Some n"
  shows "\<forall>c\<in>set n. \<not> isdigit c"
proof -
  have nr: "name_re = seqs ([Bnd, lit ''Name'', spaces, colon_or_hyphen, spaces] @ [name_capture])"
    by (simp add: name_re_def)
  have cr: "customer_name_re = seqs ([Bnd, lit ''Customer'', spaces1, lit ''Name'', spaces,
           opt colon_or_hyphen, spaces] @ [name_capture])"
    by (simp add: customer_name_re_def)
  from assms consider
    (a) nm where "re_search name_re text = Some nm" "n = strip (group nm 1)"
  | (b) nm where "re_search customer_name_re text = Some nm" "n = strip (group nm 1)"
    by (auto simp: labelled_name_def split: option.splits)
  then show ?thesis
  proof cases
    case a
    from search_group1[OF a(1) nr, of "\<lambda>w. \<forall>c\<in>set w. \<not> isdigit c"] name_capture_no_digit
    have "\<forall>c\<in>set (group nm 1). \<not> isdigit c" by blast
    with a(2) set_strip show ?thesis by blast
  next
    case b
    from search_group1[OF b(1) cr, of "\<lambda>w. \<forall>c\<in>set w. \<not> isdigit c"] name_capture_no_digit
    have "\<forall>c\<in>set (group nm 1). \<not> isdigit c" by blast
    with b(2) set_strip show ?thesis by blast
  qed
qed

lemma name_line_no_digit:
  assumes "name_line l"
  shows "\<forall>c\<in>set l. \<not> isdigit c"
proof -
  from assms have "re_search digit_re l = None"
    by (auto simp: name_line_def split: if_splits)
  then show ?thesis
    unfolding re_search_def digit_re_def using scan_Cls_None by blast
qed

lemma name_scan_cases:
  "name_scan ls name = Some n \<Longrightarrow> name = Some n \<or> name_line n"
  by (induction ls) (auto simp: Let_def split: if_splits)

text \<open>
  Claim C10. For every text, the cardholder name, when present, contains no digit: the
  two label patterns capture upper-case letters, white space, periods and hyphens only,
  and the line scan skips the lines in which \<^verbatim>\<open>\d\<close> matches.
\<close>

theorem cardholder_name_no_digit:
  "cardholder_name (extract_datapoints_from_text text) = Some n \<Longrightarrow> \<forall>c\<in>set n. \<not> isdigit c"
proof -
  assume "cardholder_name (extract_datapoints_from_text text) = Some n"
  then have n: "extract_cardholder_name text = Some n" by (simp only: fields)
  show ?thesis
  proof (cases "truthy (labelled_name text)")
    case True
    with n have "labelled_name text = Some n" by (simp add: extract_cardholder_name_def)
    then show ?thesis by (rule labelled_name_no_digit)
  next
    case False
    with n have "name_scan (take 12 (splitlines text)) (labelled_name text) = Some n"
      by (simp add: extract_cardholder_name_def)
    from name_scan_cases[OF this] show ?thesis
      using labelled_name_no_digit name_line_no_digit by blast
  qed
qed

theorem cardholder_name_no_digit_witness:
  "cardholder_name (extract_datapoints_from_text ''Name: JOHN SMITH'') = Some ''JOHN SMITH''
   \<and> list_all (\<lambda>c. \<not> isdigit c) ''JOHN SMITH''"
proof -
  have h: "cardholder_name (extract_datapoints_from_text ''Name: JOHN SMITH'') = Some ''JOHN SMITH''"
    by (simp only: ev cong: evc)
  from cardholder_name_no_digit[OF h] h show ?thesis by (simp only: list_all_iff)
qed

section \<open>The total amount due and the amounts have no commas\<close>

subsection \<open>The shape of a captured amount\<close>

lemma comma_not_digit: "isdigit c \<Longrightarrow> c \<noteq> CHR '',''"
  by (auto simp: isdigit_def code_def)

lemma point_not_digit: "\<not> isdigit CHR ''.''"
  by (simp add: isdigit_def code_def)

lemma remove_commas_digits: "list_all isdigit ds \<Longrightarrow> remove_commas ds = ds"
  by (induction ds) (simp_all add: remove_commas_def comma_not_digit)

lemma remove_commas_append: "remove_commas (u @ v) = remove_commas u @ remove_commas v"
  by (simp add: remove_commas_def)

lemma remove_commas_comma: "remove_commas (CHR '','' # v) = remove_commas v"
  by (simp add: remove_commas_def)

lemma no_comma_remove_commas: "CHR '','' \<notin> set (remove_commas s)"
  by (simp add: remove_commas_def)

lemma is_decimal_shape:
  assumes "list_all isdigit ds" "ds \<noteq> []"
    and "f = [] \<or> (\<exists>es. f = CHR ''.'' # es \<and> es \<noteq> [] \<and> list_all isdigit es)"
  shows "is_decimal (ds @ f)"
proof -
  from assms(3) have f: "takeWhile isdigit f = []" "dropWhile isdigit f = f"
    using point_not_digit by auto
  from assms(1) have "takeWhile isdigit (ds @ f) = ds @ takeWhile isdigit f"
    "dropWhile isdigit (ds @ f) = dropWhile isdigit f"
    by (simp_all add: list_all_iff takeWhile_append2 dropWhile_append2)
  with f assms show ?thesis by (auto simp: is_decimal_def)
qed

lemma lang_digits1: "w \<in> lang digits1 \<Longrightarrow> list_all isdigit w \<and> w \<noteq> []"
  using lang_Rep_Cls[of w isdigit 1 None] by (auto simp: digits1_def plus1_def)

lemma lang_fraction:
  assumes "f \<in> lang fraction"
  shows "f = [] \<or> (\<exists>es. f = CHR ''.'' # es \<and> es \<noteq> [] \<and> list_all isdigit es)"
proof -
  from assms obtain ws where ws: "f = concat ws" "set ws \<subseteq> lang (Seq (chr CHR ''.'') digits1)"
    "length ws \<le> 1" by (auto simp: fraction_def opt_def)
  show ?thesis
  proof (cases ws)
    case Nil
    with ws show ?thesis by simp
  next
    case (Cons x xs)
    with ws have f: "f = x" "x \<in> lang (Seq (chr CHR ''.'') digits1)" by auto
    from lang_SeqD[OF f(2)] obtain u v where uv: "x = u @ v" "u \<in> lang (chr CHR ''.'')" "v \<in> lang digits1"
      by blast
    from uv(2) have "u = [CHR ''.'']" by (auto simp: chr_def)
    with uv f lang_digits1 show ?thesis by auto
  qed
qed

lemma lang_thousands_star:
  assumes "t \<in> lang (star thousands)"
  shows "list_all isdigit (remove_commas t)"
proof -
  from assms obtain ws where ws: "t = concat ws" "set ws \<subseteq> lang thousands"
    by (auto simp: star_def)
  have one: "list_all isdigit (remove_commas x)" if "x \<in> lang thousands" for x
  proof -
    from that lang_SeqD obtain u v where uv: "x = u @ v" "u \<in> lang (chr CHR '','')"
      "v \<in> lang (Rep (Cls isdigit) 3 (Some 3))" unfolding thousands_def by blast
    from uv(2) have "u = [CHR '','']" by (auto simp: chr_def)
    moreover from lang_Rep_Cls[OF uv(3)] have "list_all isdigit v" by simp
    ultimately show ?thesis using uv(1)
      by (simp add: remove_commas_comma remove_commas_digits)
  qed
  have nil: "remove_commas [] = []" by (simp add: remove_commas_def)
  from ws(2) have "list_all isdigit (remove_commas (concat ws))"
    by (induction ws) (simp_all add: remove_commas_append one nil)
  with ws(1) show ?thesis by simp
qed

lemma remove_commas_fraction:
  "f = [] \<or> (\<exists>es. f = CHR ''.'' # es \<and> es \<noteq> [] \<and> list_all isdigit es) \<Longrightarrow> remove_commas f = f"
  using remove_commas_digits by (auto simp: remove_commas_comma) (simp add: remove_commas_def)

lemma lang_numeral_decimal:
  assumes "w \<in> lang (Alt grouped_numeral plain_numeral)"
  shows "is_decimal (remove_commas w)"
proof -
  from assms consider (g) "w \<in> lang grouped_numeral" | (p) "w \<in> lang plain_numeral" by auto
  then show ?thesis
  proof cases
    case g
    then have "w \<in> lang (Seq (Rep (Cls isdigit) 1 (Some 3)) (Seq (star thousands) fraction))"
      by (simp add: grouped_numeral_def)
    from lang_SeqD[OF this] obtain d r where d: "w = d @ r" "d \<in> lang (Rep (Cls isdigit) 1 (Some 3))"
      "r \<in> lang (Seq (star thousands) fraction)" by blast
    from lang_SeqD[OF d(3)] obtain t f where t: "r = t @ f" "t \<in> lang (star thousands)" "f \<in> lang fraction"
      by blast
    from lang_Rep_Cls[OF d(2)] have dd: "list_all isdigit d" "d \<noteq> []" by auto
    have "remove_commas w = (d @ remove_commas t) @ f"
      using d(1) t(1) dd(1) lang_fraction[OF t(3)]
      by (simp add: remove_commas_append remove_commas_digits remove_commas_fraction)
    moreover have "list_all isdigit (d @ remove_commas t)" "d @ remove_commas t \<noteq> []"
      using dd lang_thousands_star[OF t(2)] by simp_all
    ultimately show ?thesis using is_decimal_shape[OF _ _ lang_fraction[OF t(3)], of "d @ remove_commas t"]
      by simp
  next
    case p
    from lang_SeqD[OF p[unfolded plain_numeral_def]] obtain d f where d: "w = d @ f" "d \<in> lang digits1"
      "f \<in> lang fraction" by blast
    have "remove_commas w = d @ f"
      using d(1) lang_digits1[OF d(2)] lang_fraction[OF d(3)]
      by (simp add: remove_commas_append remove_commas_digits remove_commas_fraction)
    then show ?thesis using is_decimal_shape[OF _ _ lang_fraction[OF d(3)]] lang_digits1[OF d(2)] by simp
  qed
qed

lemma amount_capture_decimal:
  assumes "st' \<in> set (ms (Grp 1 (Alt grouped_numeral plain_numeral)) st)"
  shows "\<exists>w. grp st' 1 = Some w \<and> is_decimal (remove_commas w)"
  using ms_Grp_captures[OF assms] lang_numeral_decimal by blast

lemma find_amount_near_decimal:
  assumes "find_amount_near text i n = Some a"
  shows "is_decimal (remove_commas a)"
proof -
  have ar: "AMOUNT_RE = seqs ([opt currency, spaces] @ [Grp 1 (Alt grouped_numeral plain_numeral)])"
    by (simp add: AMOUNT_RE_def)
  from assms obtain m where m: "re_search AMOUNT_RE (slice text i (i + n)) = Some m" "a = group m 1"
    by (auto simp: find_amount_near_def split: option.splits)
  from search_group1[OF m(1) ar, of "\<lambda>w. is_decimal (remove_commas w)"] amount_capture_decimal m(2)
  show ?thesis by blast
qed

lemma total_matches_decimal:
  "total_matches lt mts = Some v \<Longrightarrow> is_decimal v \<and> CHR '','' \<notin> set v"
proof (induction mts)
  case Nil
  then show ?case by simp
next
  case (Cons m mts)
  then show ?case
    by (auto simp: no_comma_remove_commas split: option.splits if_splits dest: find_amount_near_decimal)
qed

lemma total_keyword_loop_decimal:
  "total_keyword_loop lt kws = Some v \<Longrightarrow> is_decimal v \<and> CHR '','' \<notin> set v"
  by (induction kws) (auto split: option.splits dest: total_matches_decimal)

lemma total_fallback_decimal:
  "total_fallback text mts out = Some v \<Longrightarrow> out = Some v \<or> (is_decimal v \<and> CHR '','' \<notin> set v)"
proof (induction mts)
  case Nil
  then show ?case by simp
next
  case (Cons m mts)
  then show ?case
    by (auto simp: no_comma_remove_commas split: option.splits if_splits dest: find_amount_near_decimal)
qed

lemma extract_total_decimal:
  assumes "extract_total_amount_due text = Some v"
  shows "is_decimal v \<and> CHR '','' \<notin> set v"
proof -
  let ?out = "total_keyword_loop (lower text) total_keywords"
  from assms consider (kw) "?out = Some v"
    | (fb) "total_fallback text (finditer total_fallback_re (lower text)) ?out = Some v"
    by (auto simp: extract_total_amount_due_def Let_def split: if_splits)
  then show ?thesis
  proof cases
    case kw
    then show ?thesis by (rule total_keyword_loop_decimal)
  next
    case fb
    from total_fallback_decimal[OF fb] total_keyword_loop_decimal show ?thesis by blast
  qed
qed

text \<open>
  Claim C8. For every text, the total amount due, when present, contains no comma and is
  a decimal numeral without sign (digits, then possibly a point and more digits); and no
  entry of the candidate amounts contains a comma.
\<close>

theorem amounts_decimal_without_commas:
  "(total_amount_due (extract_datapoints_from_text text) = Some v
      \<longrightarrow> CHR '','' \<notin> set v \<and> is_decimal v)
   \<and> (\<forall>a\<in>set (amounts (candidates (extract_datapoints_from_text text))). CHR '','' \<notin> set a)"
  using extract_total_decimal[of "text" v]
  by (auto simp: fields candidate_amounts_def no_comma_remove_commas)

theorem amounts_decimal_without_commas_witness:
  "total_amount_due (extract_datapoints_from_text ''Total Amount Due: Rs. 12,345.67'') = Some ''12345.67''
   \<and> amounts (candidates (extract_datapoints_from_text ''Total Amount Due: Rs. 12,345.67'')) = [''12345.67'']
   \<and> CHR '','' \<notin> set ''12345.67'' \<and> is_decimal ''12345.67''"
proof -
  have h: "total_amount_due (extract_datapoints_from_text ''Total Amount Due: Rs. 12,345.67'') = Some ''12345.67''"
    by (simp only: ev cong: evc)
  have a: "amounts (candidates (extract_datapoints_from_text ''Total Amount Due: Rs. 12,345.67'')) = [''12345.67'']"
    by (simp only: ev cong: evc)
  from amounts_decimal_without_commas[of "''Total Amount Due: Rs. 12,345.67''" "''12345.67''"] h a
  show ?thesis by blast
qed

section \<open>No last four digits without a mask, a keyword or a non-year\<close>

lemma lang_four_re: "w \<in> lang four_re \<Longrightarrow> list_all isdigit w \<and> length w = 4"
  using lang_Rep_Cls[of w isdigit 4 "Some 4"] by (auto simp: four_re_def)

lemma finditer_four_substring:
  assumes "m \<in> set (finditer four_re text)"
  shows "group m 0 \<in> set (four_digit_substrings text)"
proof -
  from assms iter_mem obtain k pv where k: "k \<le> length text"
    "match_at four_re pv (0 + k) (drop k text) = Some m"
    unfolding finditer_def by blast
  from match_at_group0[OF k(2)] obtain w t where w: "w \<in> lang four_re" "group m 0 = w"
    "drop k text = w @ t" by blast
  from lang_four_re[OF w(1)] have d: "list_all isdigit w" "length w = 4" by simp_all
  from w(3) d(2) have tk: "take 4 (drop k text) = w" by simp
  from w(3) d(2) have "length (drop k text) \<ge> 4" by simp
  then have "k < length text - 3" by simp
  with tk d(1) w(2) show ?thesis
    unfolding four_digit_substrings_def by (auto intro!: image_eqI[of _ _ k])
qed

lemma non_year_fours_Nil:
  assumes "list_all is_year (four_digit_substrings text)"
  shows "non_year_fours text = []"
proof -
  have "\<forall>m\<in>set (finditer four_re text). is_year (group m 0)"
    using assms finditer_four_substring by (auto simp: list_all_iff)
  then show ?thesis
    unfolding non_year_fours_def is_year_def by (simp add: filter_empty_conv)
qed

text \<open>
  Claim C3, as amended. If the masked-run pattern matches nowhere in the text, the keyword
  pattern \<^verbatim>\<open>card\b|card no|card number|card account\<close> matches nowhere in the lower-cased
  text, and every substring of four digits is a year from 1900 to 2099, then
  \<open>card_last4\<close> is \<open>None\<close>.
\<close>

theorem no_last4_without_mask_keyword_or_non_year:
  assumes "re_search masked_re text = None"
    and "finditer card_re (lower text) = []"
    and "list_all is_year (four_digit_substrings text)"
  shows "card_last4 (extract_datapoints_from_text text) = None"
  using assms(1,2) non_year_fours_Nil[OF assms(3)]
  by (simp add: fields extract_card_last4_def possible_last4_def)

theorem no_last4_without_mask_keyword_or_non_year_witness:
  "re_search masked_re ''Statement 2024'' = None
   \<and> finditer card_re (lower ''Statement 2024'') = []
   \<and> list_all is_year (four_digit_substrings ''Statement 2024'')
   \<and> card_last4 (extract_datapoints_from_text ''Statement 2024'') = None"
proof -
  have a: "re_search masked_re ''Statement 2024'' = None"
    by (simp only: ev cong: evc)
  have b: "finditer card_re (lower ''Statement 2024'') = []"
    by (simp only: ev cong: evc)
  have c: "list_all is_year (four_digit_substrings ''Statement 2024'')"
    by (simp add: four_digit_substrings_def is_year_def int_of_def isdigit_def code_def upt_rec)
  from no_last4_without_mask_keyword_or_non_year[OF a b c] a b c show ?thesis by simp
qed

text \<open>
  The claim as stated fails on \<open>xx1999\<close>: its only substring of four digits is a year and
  it has no keyword, yet the masked-run pattern matches and yields \<open>1999\<close>.
\<close>

theorem last4_from_masked_year:
  "list_all is_year (four_digit_substrings ''xx1999'')
   \<and> finditer card_re (lower ''xx1999'') = []
   \<and> card_last4 (extract_datapoints_from_text ''xx1999'') = Some ''1999''"
proof -
  have c: "list_all is_year (four_digit_substrings ''xx1999'')"
    by (simp add: four_digit_substrings_def is_year_def int_of_def isdigit_def code_def upt_rec)
  have b: "finditer card_re (lower ''xx1999'') = []"
    by (simp only: ev cong: evc)
  have a: "card_last4 (extract_datapoints_from_text ''xx1999'') = Some ''1999''"
    by (simp only: ev cong: evc)
  from a b c show ?thesis by simp
qed

section \<open>The candidate sequences and the primary fields\<close>

subsection \<open>An amount needs a digit, and a digit gives an amount\<close>

lemma isdigit_lower_chr: "isdigit (lower_chr c) = isdigit c"
  by (cases c) (simp add: lower_chr_Char isupper_Char isdigit_Char)

lemma digit_in_lower: "(\<exists>c\<in>set (lower s). isdigit c) = (\<exists>c\<in>set s. isdigit c)"
  by (simp add: lower_def isdigit_lower_chr)

lemma is_decimal_has_digit: "is_decimal s \<Longrightarrow> \<exists>c\<in>set s. isdigit c"
proof -
  assume "is_decimal s"
  then have "takeWhile isdigit s \<noteq> []" by (simp add: is_decimal_def)
  then obtain c where "c \<in> set (takeWhile isdigit s)" by (cases "takeWhile isdigit s") auto
  then show ?thesis using set_takeWhileD by fastforce
qed

lemma lang_AMOUNT_RE_digit:
  assumes "w \<in> lang AMOUNT_RE"
  shows "\<exists>c\<in>set w. isdigit c"
proof -
  from assms have "w \<in> lang (Seq (opt currency) (Seq spaces (Grp 1 (Alt grouped_numeral plain_numeral))))"
    by (simp add: AMOUNT_RE_def)
  from lang_SeqD[OF this] obtain u r where ur: "w = u @ r"
    "r \<in> lang (Seq spaces (Grp 1 (Alt grouped_numeral plain_numeral)))" by blast
  from lang_SeqD[OF ur(2)] obtain v x where vx: "r = v @ x" "x \<in> lang (Grp 1 (Alt grouped_numeral plain_numeral))"
    by blast
  from vx(2) have "x \<in> lang (Alt grouped_numeral plain_numeral)" by simp
  from is_decimal_has_digit[OF lang_numeral_decimal[OF this]]
  obtain c where "c \<in> set (remove_commas x)" "isdigit c" by blast
  then have "c \<in> set x" by (simp add: remove_commas_def)
  with ur(1) vx(1) \<open>isdigit c\<close> show ?thesis by auto
qed

lemma search_amount_digit:
  assumes "re_search AMOUNT_RE s = Some m"
  shows "\<exists>c\<in>set s. isdigit c"
proof -
  from assms scan_Some obtain k pv where "match_at AMOUNT_RE pv (0 + k) (drop k s) = Some m"
    unfolding re_search_def by blast
  from match_at_group0[OF this] obtain w t where w: "w \<in> lang AMOUNT_RE" "drop k s = w @ t" by blast
  from lang_AMOUNT_RE_digit[OF w(1)] obtain c where c: "c \<in> set w" "isdigit c" by blast
  from c(1) w(2) have "c \<in> set (drop k s)" by simp
  then have "c \<in> set s" by (rule in_set_dropD)
  with c(2) show ?thesis by blast
qed

lemma find_amount_near_digit:
  assumes "find_amount_near t i n = Some a"
  shows "\<exists>c\<in>set t. isdigit c"
proof -
  from assms obtain m where "re_search AMOUNT_RE (slice t i (i + n)) = Some m"
    by (auto simp: find_amount_near_def split: option.splits)
  from search_amount_digit[OF this] obtain c where c: "c \<in> set (slice t i (i + n))" "isdigit c"
    by blast
  from c(1) have "c \<in> set t" unfolding slice_def by (meson in_set_dropD in_set_takeD)
  with c(2) show ?thesis by blast
qed

lemma total_matches_digit:
  "total_matches lt mts = Some v \<Longrightarrow> \<exists>c\<in>set lt. isdigit c"
proof (induction mts)
  case Nil
  then show ?case by simp
next
  case (Cons m mts)
  show ?case
  proof (cases "find_amount_near lt (mend m) 200")
    case None
    with Cons show ?thesis by simp
  next
    case (Some a)
    then show ?thesis by (rule find_amount_near_digit)
  qed
qed

lemma total_keyword_loop_digit:
  "total_keyword_loop lt kws = Some v \<Longrightarrow> \<exists>c\<in>set lt. isdigit c"
proof (induction kws)
  case Nil
  then show ?case by simp
next
  case (Cons kw kws)
  show ?case
  proof (cases "total_matches lt (finditer kw lt)")
    case None
    with Cons show ?thesis by simp
  next
    case (Some a)
    then show ?thesis by (rule total_matches_digit)
  qed
qed

lemma total_fallback_digit:
  "total_fallback t mts out = Some v \<Longrightarrow> out = Some v \<or> (\<exists>c\<in>set t. isdigit c)"
proof (induction mts)
  case Nil
  then show ?case by simp
next
  case (Cons m mts)
  show ?case
  proof (cases "find_amount_near t (mstart m) 300")
    case None
    with Cons show ?thesis by simp
  next
    case (Some a)
    then show ?thesis using find_amount_near_digit by blast
  qed
qed

lemma extract_total_digit:
  assumes "extract_total_amount_due text = Some v"
  shows "\<exists>c\<in>set text. isdigit c"
proof -
  let ?out = "total_keyword_loop (lower text) total_keywords"
  from assms consider (kw) "?out = Some v"
    | (fb) "total_fallback text (finditer total_fallback_re (lower text)) ?out = Some v"
    by (auto simp: extract_total_amount_due_def Let_def split: if_splits)
  then show ?thesis
  proof cases
    case kw
    from total_keyword_loop_digit[OF kw] show ?thesis by (simp only: digit_in_lower)
  next
    case fb
    from total_fallback_digit[OF fb] total_keyword_loop_digit[of "lower text" total_keywords v]
    show ?thesis by (auto simp only: digit_in_lower)
  qed
qed

lemma nonempty_mem: "xs \<noteq> [] \<Longrightarrow> \<exists>x. x \<in> set xs"
  by (cases xs) auto

lemma many_zero_mem: "st \<in> set (many f 0 hi st)"
  by (cases hi) simp_all

lemma ms_Seq_mem: "s1 \<in> set (ms a st) \<Longrightarrow> s2 \<in> set (ms b s1) \<Longrightarrow> s2 \<in> set (ms (Seq a b) st)"
  by auto

lemma ms_opt_mem: "st \<in> set (ms (opt r) st)"
  by (simp add: opt_def)

lemma ms_star_mem: "st \<in> set (ms (star r) st)"
  by (simp add: star_def many_zero_mem)

lemma ms_digits_1_3:
  assumes "rest st = c # cs" "isdigit c"
  shows "ms (Rep (Cls isdigit) 1 (Some 3)) st \<noteq> []"
proof -
  let ?s1 = "st\<lparr>pos := Suc (pos st), prev := Some c, rest := cs\<rparr>"
  have "ms (Cls isdigit) st = [?s1]" using assms by simp
  moreover have "?s1 \<in> set (many (ms (Cls isdigit)) 0 2 ?s1)" by (rule many_zero_mem)
  ultimately have "?s1 \<in> set (ms (Rep (Cls isdigit) 1 (Some 3)) st)"
    by (simp add: numeral_3_eq_3)
  then show ?thesis by auto
qed

lemma ms_AMOUNT_RE_digit:
  assumes "rest st = c # cs" "isdigit c"
  shows "ms AMOUNT_RE st \<noteq> []"
proof -
  from nonempty_mem[OF ms_digits_1_3[OF assms]]
  obtain s1 where s1: "s1 \<in> set (ms (Rep (Cls isdigit) 1 (Some 3)) st)" by blast
  have "s1 \<in> set (ms (Seq (star thousands) fraction) s1)"
    using ms_Seq_mem[OF ms_star_mem ms_opt_mem[of s1 "Seq (chr CHR ''.'') digits1"]]
    by (simp add: fraction_def)
  with s1 have "s1 \<in> set (ms grouped_numeral st)"
    unfolding grouped_numeral_def by (simp only: seqs.simps) (rule ms_Seq_mem)
  then have "ms (Grp 1 (Alt grouped_numeral plain_numeral)) st \<noteq> []" by auto
  from nonempty_mem[OF this]
  obtain s2 where "s2 \<in> set (ms (Grp 1 (Alt grouped_numeral plain_numeral)) st)" by blast
  with ms_star_mem[of st "Cls isspace"] have "s2 \<in> set (ms (Seq spaces (Grp 1 (Alt grouped_numeral plain_numeral))) st)"
    unfolding spaces_def by (rule ms_Seq_mem)
  with ms_opt_mem[of st currency] have "s2 \<in> set (ms AMOUNT_RE st)"
    unfolding AMOUNT_RE_def by (simp only: seqs.simps) (rule ms_Seq_mem)
  then show ?thesis by auto
qed

lemma finditer_amount_nonempty:
  assumes "c \<in> set text" "isdigit c"
  shows "finditer AMOUNT_RE text \<noteq> []"
proof
  assume e: "finditer AMOUNT_RE text = []"
  from assms(1) obtain xs ys where t: "text = xs @ c # ys" by (meson split_list)
  have "length xs \<le> length text" using t by simp
  from iter_Nil_no_match[OF e[unfolded finditer_def] this]
  obtain pv where "match_at AMOUNT_RE pv (0 + length xs) (drop (length xs) text) = None" by blast
  then have "ms AMOUNT_RE (start_state pv (0 + length xs) (c # ys)) = []"
    using t by (simp add: match_at_def split: list.splits)
  moreover have "ms AMOUNT_RE (start_state pv (0 + length xs) (c # ys)) \<noteq> []"
    by (rule ms_AMOUNT_RE_digit[OF _ assms(2)]) (simp add: start_state_def)
  ultimately show False by simp
qed

text \<open>
  Claim C2, as amended. For every text, the candidate amounts have at least as many entries
  as there are amount fields present: when \<open>total_amount_due\<close> is present, the sequence
  is not empty.
\<close>

theorem amounts_cover_total_count:
  "(case total_amount_due (extract_datapoints_from_text text) of None \<Rightarrow> 0 | Some v \<Rightarrow> 1)
     \<le> length (amounts (candidates (extract_datapoints_from_text text)))"
proof (cases "extract_total_amount_due text")
  case None
  then show ?thesis by (simp add: fields)
next
  case (Some v)
  from extract_total_digit[OF this] obtain c where "c \<in> set text" "isdigit c" by blast
  from finditer_amount_nonempty[OF this] have "candidate_amounts text \<noteq> []"
    by (simp add: candidate_amounts_def)
  then have "1 \<le> length (candidate_amounts text)" by (cases "candidate_amounts text") simp_all
  with Some show ?thesis by (simp add: fields)
qed

theorem amounts_cover_total_count_witness:
  "total_amount_due (extract_datapoints_from_text ''Total Due 5'') = Some ''5''
   \<and> (1::nat) \<le> length (amounts (candidates (extract_datapoints_from_text ''Total Due 5'')))"
proof -
  have h: "total_amount_due (extract_datapoints_from_text ''Total Due 5'') = Some ''5''"
    by (simp only: ev cong: evc)
  from amounts_cover_total_count[of "''Total Due 5''"] h show ?thesis by simp
qed

text \<open>
  The claim as stated fails. In \<open>due date1/1/2020\<close> the date is matched in the window that
  starts after the keyword, and is no match of the date pattern in the whole text; in the
  second text the window of 200 characters ends inside the numeral.
\<close>

theorem primary_fields_outside_candidates:
  "payment_due_date (extract_datapoints_from_text ''due date1/1/2020'') = Some ''1/1/2020''
   \<and> dates (candidates (extract_datapoints_from_text ''due date1/1/2020'')) = []
   \<and> total_amount_due (extract_datapoints_from_text
        (''total due'' @ replicate 198 CHR '' '' @ ''12345'')) = Some ''12''
   \<and> amounts (candidates (extract_datapoints_from_text
        (''total due'' @ replicate 198 CHR '' '' @ ''12345''))) = [''123'', ''45'']"
proof -
  have a: "payment_due_date (extract_datapoints_from_text ''due date1/1/2020'') = Some ''1/1/2020''"
    by (simp only: ev cong: evc)
  have b: "dates (candidates (extract_datapoints_from_text ''due date1/1/2020'')) = []"
    by (simp only: ev cong: evc)
  have c: "total_amount_due (extract_datapoints_from_text
        (''total due'' @ replicate 198 CHR '' '' @ ''12345'')) = Some ''12''"
    by (simp only: ev cong: evc)
  have d: "amounts (candidates (extract_datapoints_from_text
        (''total due'' @ replicate 198 CHR '' '' @ ''12345''))) = [''123'', ''45'']"
    by (simp only: ev cong: evc)
  from a b c d show ?thesis by simp
qed

section \<open>The literal examples, after a prefix and before a suffix\<close>

subsection \<open>The first match after an unmatched prefix\<close>

lemma shift_simps:
  "mstart (shift k m) = mstart m + k" "mend (shift k m) = mend m + k"
  "group (shift k m) n = group m n"
  by (simp_all add: shift_def group_def)

lemma scan_head:
  "match_at r pv i ys = Some m \<Longrightarrow> scan r pv i ys = Some m"
  by (cases ys) simp_all

lemma iter_head:
  "match_at r pv i ys = Some m \<Longrightarrow> \<exists>tl. iter r 0 pv i ys = m # tl"
  by (cases ys) simp_all

lemma search_after_prefix:
  assumes "unmatched r (xs @ ys) (length xs)"
    and "match_at r (if xs = [] then None else Some (last xs)) 0 ys = Some m"
  shows "re_search r (xs @ ys) = Some (shift (length xs) m)"
proof -
  have "match_at r (if xs = [] then None else Some (last xs)) (0 + length xs) ys = Some (shift (length xs) m)"
    using assms(2) match_at_shift[of r _ "0 + length xs" ys] by simp
  from scan_head[OF this] scan_skip[OF assms(1)[unfolded unmatched_def]]
  show ?thesis by (simp add: re_search_def)
qed

lemma finditer_after_prefix:
  assumes "unmatched r (xs @ ys) (length xs)"
    and "match_at r (if xs = [] then None else Some (last xs)) 0 ys = Some m"
  shows "\<exists>tl. finditer r (xs @ ys) = shift (length xs) m # tl"
proof -
  have "match_at r (if xs = [] then None else Some (last xs)) (0 + length xs) ys = Some (shift (length xs) m)"
    using assms(2) match_at_shift[of r _ "0 + length xs" ys] by simp
  from iter_head[OF this] iter_skip[OF assms(1)[unfolded unmatched_def]]
  show ?thesis by (simp add: finditer_def)
qed

lemma slice_after_prefix:
  "slice (xs @ ys) (k + length xs) (k + length xs + n) = take n (drop k ys)"
  by (simp add: slice_def)

lemma lower_append: "lower (xs @ ys) = lower xs @ lower ys"
  by (simp add: lower_def)

lemma length_lower: "length (lower xs) = length xs"
  by (simp add: lower_def)

subsection \<open>Extending an unmatched prefix\<close>

lemma match_at_None_shift: "(match_at r pv i s = None) = (match_at r pv j s = None)"
  using match_at_shift[of r pv i s] match_at_shift[of r pv j s] by simp

lemma unmatched_from_pos: "unmatched_from r pv i s n = unmatched_from r pv j s n"
proof (induction n arbitrary: pv i j s)
  case 0
  then show ?case by simp
next
  case (Suc n)
  show ?case
  proof (cases s)
    case Nil
    then show ?thesis using match_at_None_shift[of r pv i "[]" j] by simp
  next
    case (Cons c cs)
    then show ?thesis
      using match_at_None_shift[of r pv i "c # cs" j] Suc.IH[of "Some c" "Suc i" cs "Suc j"] by simp
  qed
qed

lemma unmatched_from_append:
  "unmatched_from r pv i (xs @ ys) (length xs + n) =
   (unmatched_from r pv i (xs @ ys) (length xs)
    \<and> unmatched_from r (if xs = [] then pv else Some (last xs)) (i + length xs) ys n)"
  by (induction xs arbitrary: pv i) auto

lemma unmatched_extend:
  assumes "unmatched r (xs @ zs @ ys) (length xs)"
    and "unmatched_from r (if xs = [] then None else Some (last xs)) 0 (zs @ ys) (length zs)"
  shows "unmatched r ((xs @ zs) @ ys) (length (xs @ zs))"
proof -
  have "unmatched_from r (if xs = [] then None else Some (last xs)) (0 + length xs) (zs @ ys) (length zs)"
    using assms(2) unmatched_from_pos by blast
  with assms(1) have "unmatched_from r None 0 (xs @ zs @ ys) (length xs + length zs)"
    unfolding unmatched_def by (simp only: unmatched_from_append)
  then show ?thesis by (simp add: unmatched_def)
qed

subsection \<open>The amount after the keyword\<close>

lemma lower_total_literal:
  "lower ''Total Amount Due: Rs. 12,345.67'' = ''total amount due: rs. 12,345.67''"
  by (simp only: ev cong: evc)

lemma total_kw1_match_literal:
  "\<exists>m. match_at total_kw1 pv 0 (''total amount due: rs. 12,345.67'' @ s) = Some m \<and> mend m = 16"
  by (simp only: ev cong: evc)

lemma amount_window_literal:
  assumes "s = [] \<or> \<not> isdigit (hd s)"
  shows "\<exists>m. re_search AMOUNT_RE ('': rs. 12,345.67'' @ s) = Some m \<and> group m 1 = ''12,345.67''"
proof (cases s)
  case Nil
  show ?thesis unfolding Nil
    by (simp only: ev cong: evc)
next
  case (Cons c cs)
  with assms have c: "isdigit c = False" by simp
  show ?thesis unfolding Cons using c
    by (simp only: ev cong: evc)
qed

lemma take_lower_no_digit:
  assumes "suf = [] \<or> \<not> isdigit (hd suf)"
  shows "take n (lower suf) = [] \<or> \<not> isdigit (hd (take n (lower suf)))"
proof (cases suf)
  case Nil
  then show ?thesis by (simp add: lower_def)
next
  case (Cons c cs)
  with assms show ?thesis by (cases n) (simp_all add: lower_def isdigit_lower_chr)
qed

lemma remove_commas_literal: "remove_commas ''12,345.67'' = ''12345.67''"
  by (simp only: ev cong: evc)

lemma drop_total_literal:
  "drop 16 (''total amount due: rs. 12,345.67'' @ s) = '': rs. 12,345.67'' @ s"
  by (simp only: ev cong: evc)

lemma take_amount_literal:
  "take 200 ('': rs. 12,345.67'' @ s) = '': rs. 12,345.67'' @ take 185 s"
  by (simp only: ev cong: evc)

text \<open>
  Claim C4, as amended. If the text is \<open>pre @ ''Total Amount Due: Rs. 12,345.67'' @ suf\<close>,
  where the first keyword pattern \<^verbatim>\<open>total\s*(?:amount\s*)?due\<close> matches at no offset inside
  the lower-cased \<open>pre\<close> and \<open>suf\<close> is empty or begins with a character that is not a digit,
  then \<open>total_amount_due\<close> is \<open>12345.67\<close>.
\<close>

theorem total_after_keyword:
  assumes "text = pre @ ''Total Amount Due: Rs. 12,345.67'' @ suf"
    and "unmatched total_kw1 (lower text) (length pre)"
    and "suf = [] \<or> \<not> isdigit (hd suf)"
  shows "total_amount_due (extract_datapoints_from_text text) = Some ''12345.67''"
proof -
  let ?lt = "lower pre @ ''total amount due: rs. 12,345.67'' @ lower suf"
  have lt: "lower text = ?lt"
    by (simp only: assms(1) lower_append lower_total_literal)
  from total_kw1_match_literal obtain m where
    m: "match_at total_kw1 (if lower pre = [] then None else Some (last (lower pre))) 0
          (''total amount due: rs. 12,345.67'' @ lower suf) = Some m" "mend m = 16"
    by blast
  have "unmatched total_kw1 ?lt (length (lower pre))"
    using assms(2) by (simp only: lt length_lower)
  from finditer_after_prefix[OF this m(1)] obtain tl where
    f: "finditer total_kw1 ?lt = shift (length (lower pre)) m # tl" by blast
  have e: "mend (shift (length (lower pre)) m) = 16 + length (lower pre)"
    by (simp add: shift_simps m(2))
  have sl: "slice ?lt (16 + length (lower pre)) (16 + length (lower pre) + 200)
          = '': rs. 12,345.67'' @ take 185 (lower suf)"
    by (simp only: slice_after_prefix drop_total_literal take_amount_literal)
  from amount_window_literal[OF take_lower_no_digit[OF assms(3)]] obtain am where
    am: "re_search AMOUNT_RE ('': rs. 12,345.67'' @ take 185 (lower suf)) = Some am"
    "group am 1 = ''12,345.67''" by blast
  have fa: "find_amount_near ?lt (mend (shift (length (lower pre)) m)) 200 = Some ''12,345.67''"
    by (simp only: find_amount_near_def Let_def e sl am option.case)
  have "total_matches ?lt (shift (length (lower pre)) m # tl) = Some ''12345.67''"
    by (simp only: total_matches.simps Let_def fa option.case remove_commas_literal
        list.distinct not_False_eq_True if_True)
  then have "total_matches (lower text) (finditer total_kw1 (lower text)) = Some ''12345.67''"
    by (simp only: lt f)
  then have "total_keyword_loop (lower text) total_keywords = Some ''12345.67''"
    by (simp only: total_keywords_def total_keyword_loop.simps option.case)
  then show ?thesis
    by (simp add: fields extract_total_amount_due_def truthy_def)
qed

theorem total_after_keyword_witness:
  "unmatched total_kw1 (lower (''Statement. '' @ ''Total Amount Due: Rs. 12,345.67'' @ '' only''))
     (length ''Statement. '')
   \<and> \<not> isdigit (hd '' only'')
   \<and> total_amount_due (extract_datapoints_from_text
        (''Statement. '' @ ''Total Amount Due: Rs. 12,345.67'' @ '' only'')) = Some ''12345.67''"
proof -
  have a: "unmatched total_kw1 (lower (''Statement. '' @ ''Total Amount Due: Rs. 12,345.67'' @ '' only''))
     (length ''Statement. '')"
    by (simp only: unmatched_def unmatched_from.simps ev cong: evc)
  have b: "\<not> isdigit (hd '' only'')"
    by (simp only: list.sel ev cong: evc)
  from total_after_keyword[OF refl a disjI2[OF b]] a b show ?thesis by simp
qed

text \<open>
  The claim as stated fails: an earlier occurrence of a keyword wins, and a digit after
  the numeral is part of it.
\<close>

theorem total_from_earlier_keyword_or_longer_numeral:
  "total_amount_due (extract_datapoints_from_text
     ''Total Due 5 Total Amount Due: Rs. 12,345.67'') = Some ''5''
   \<and> total_amount_due (extract_datapoints_from_text
     ''Total Amount Due: Rs. 12,345.678'') = Some ''12345.678''"
proof -
  have a: "total_amount_due (extract_datapoints_from_text
     ''Total Due 5 Total Amount Due: Rs. 12,345.67'') = Some ''5''"
    by (simp only: ev cong: evc)
  have b: "total_amount_due (extract_datapoints_from_text
     ''Total Amount Due: Rs. 12,345.678'') = Some ''12345.678''"
    by (simp only: ev cong: evc)
  from a b show ?thesis by simp
qed

subsection \<open>The date after the keyword\<close>

lemma lower_due_literal:
  "lower ''Payment Due Date 15/03/2024'' = ''payment due date 15/03/2024''"
  by (simp only: ev cong: evc)

lemma due_pat1_match_literal:
  "\<exists>m. match_at due_pat1 pv 0 (''payment due date 15/03/2024'' @ s) = Some m \<and> mend m = 16"
  by (simp only: ev cong: evc)

lemma date_window_literal:
  assumes "s = [] \<or> \<not> isword (hd s)"
  shows "\<exists>m. re_search DATE_RE ('' 15/03/2024'' @ s) = Some m \<and> group m 0 = ''15/03/2024''"
proof (cases s)
  case Nil
  show ?thesis unfolding Nil
    by (simp only: ev cong: evc)
next
  case (Cons c cs)
  with assms have c: "isword c = False" by simp
  show ?thesis unfolding Cons using c
    by (simp only: ev cong: evc)
qed

lemma take_no_word:
  assumes "suf = [] \<or> \<not> isword (hd suf)"
  shows "take n suf = [] \<or> \<not> isword (hd (take n suf))"
  using assms by (cases suf; cases n) simp_all

lemma strip_date_literal: "strip ''15/03/2024'' = ''15/03/2024''"
  by (simp only: ev cong: evc)

lemma drop_due_literal:
  "drop 16 (''Payment Due Date 15/03/2024'' @ s) = '' 15/03/2024'' @ s"
  by (simp only: ev cong: evc)

lemma take_date_literal:
  "take 140 ('' 15/03/2024'' @ s) = '' 15/03/2024'' @ take 129 s"
  by (simp only: ev cong: evc)

text \<open>
  Claim C1, as amended. If the text is \<open>pre @ ''Payment Due Date 15/03/2024'' @ suf\<close>,
  where lower-casing \<open>pre\<close> does not change its length (the keyword is found in the
  lower-cased text and the date is read from the text at the offset where that match ends),
  the first keyword pattern \<^verbatim>\<open>payment\s*due\s*date\<close> matches at no offset inside the
  lower-cased \<open>pre\<close>, and \<open>suf\<close> is empty or begins with a non-word character, then
  \<open>payment_due_date\<close> is \<open>15/03/2024\<close>.
\<close>

theorem due_date_after_keyword:
  assumes "text = pre @ ''Payment Due Date 15/03/2024'' @ suf"
    and "unmatched due_pat1 (lower text) (length pre)"
    and "suf = [] \<or> \<not> isword (hd suf)"
    and "length (lower pre) = length pre"
  shows "payment_due_date (extract_datapoints_from_text text) = Some ''15/03/2024''"
proof -
  let ?lt = "lower pre @ ''payment due date 15/03/2024'' @ lower suf"
  have lt: "lower text = ?lt"
    by (simp only: assms(1) lower_append lower_due_literal)
  from due_pat1_match_literal obtain m where
    m: "match_at due_pat1 (if lower pre = [] then None else Some (last (lower pre))) 0
          (''payment due date 15/03/2024'' @ lower suf) = Some m" "mend m = 16"
    by blast
  have "unmatched due_pat1 ?lt (length (lower pre))"
    using assms(2) by (simp only: lt assms(4))
  from finditer_after_prefix[OF this m(1)] obtain tl where
    f: "finditer due_pat1 (lower text) = shift (length (lower pre)) m # tl"
    unfolding lt by blast
  have e: "mend (shift (length (lower pre)) m) = 16 + length pre"
    by (simp only: shift_simps m(2) assms(4))
  have sl: "slice text (16 + length pre) (16 + length pre + 140) = '' 15/03/2024'' @ take 129 suf"
    by (simp only: assms(1) slice_after_prefix drop_due_literal take_date_literal)
  from date_window_literal[OF take_no_word[OF assms(3)]] obtain dm where
    dm: "re_search DATE_RE ('' 15/03/2024'' @ take 129 suf) = Some dm" "group dm 0 = ''15/03/2024''"
    by blast
  have "due_matches text (shift (length (lower pre)) m # tl) None = Some ''15/03/2024''"
    by (simp only: due_matches.simps Let_def e sl dm option.case strip_date_literal)
  then have "due_matches text (finditer due_pat1 (lower text)) None = Some ''15/03/2024''"
    by (simp only: f)
  then have "due_pattern_loop text due_patterns None = Some ''15/03/2024''"
    by (simp add: due_patterns_def truthy_def)
  then show ?thesis
    by (simp add: fields extract_payment_due_date_def)
qed

theorem due_date_after_keyword_witness:
  "unmatched due_pat1 (lower (''Minimum Due 100. '' @ ''Payment Due Date 15/03/2024'' @ ''. Pay now''))
     (length ''Minimum Due 100. '')
   \<and> \<not> isword (hd ''. Pay now'')
   \<and> length (lower ''Minimum Due 100. '') = length ''Minimum Due 100. ''
   \<and> payment_due_date (extract_datapoints_from_text
        (''Minimum Due 100. '' @ ''Payment Due Date 15/03/2024'' @ ''. Pay now'')) = Some ''15/03/2024''"
proof -
  have a: "unmatched due_pat1 (lower (''Minimum Due 100. '' @ ''Payment Due Date 15/03/2024'' @ ''. Pay now''))
     (length ''Minimum Due 100. '')"
    by (simp only: unmatched_def unmatched_from.simps ev cong: evc)
  have b: "\<not> isword (hd ''. Pay now'')"
    by (simp only: list.sel ev cong: evc)
  have c: "length (lower ''Minimum Due 100. '') = length ''Minimum Due 100. ''"
    by (simp only: ev cong: evc)
  from due_date_after_keyword[OF refl a disjI2[OF b] c] a b c show ?thesis by simp
qed

text \<open>
  The claim as stated fails: a word character after the date leaves no date to match, and
  of the immediate words the first alternative, \<open>immediat\<close>, is the one that matches.
\<close>

theorem due_date_lost_or_cut:
  "payment_due_date (extract_datapoints_from_text ''Payment Due Date 15/03/20245'') = None
   \<and> payment_due_date (extract_datapoints_from_text ''Payment Due IMMEDIATELY'') = Some ''IMMEDIAT''"
proof -
  have a: "payment_due_date (extract_datapoints_from_text ''Payment Due Date 15/03/20245'') = None"
    by (simp only: ev cong: evc)
  have b: "payment_due_date (extract_datapoints_from_text ''Payment Due IMMEDIATELY'') = Some ''IMMEDIAT''"
    by (simp only: ev cong: evc)
  from a b show ?thesis by simp
qed

subsection \<open>A greedy run over one character class\<close>

lemma advance_0: "advance 0 st = st"
  by (simp add: advance_def)

lemma advance_Suc:
  assumes "rest st = c # cs"
  shows "advance (Suc k) st = advance k (st\<lparr>pos := Suc (pos st), prev := Some c, rest := cs\<rparr>)"
  using assms by (cases k) (simp_all add: advance_def)

lemma rev_upt_Suc_0: "rev [0..<Suc (Suc n)] = map Suc (rev [0..<Suc n]) @ [0]"
proof -
  have "[0..<Suc (Suc n)] = 0 # [Suc 0..<Suc (Suc n)]"
    by (rule upt_conv_Cons) simp
  also have "[Suc 0..<Suc (Suc n)] = map Suc [0..<Suc n]"
    by (rule map_Suc_upt[symmetric])
  finally show ?thesis by (simp only: rev.simps rev_map)
qed

lemma rev_upt_Suc_Suc: "rev [Suc l..<Suc (Suc n)] = map Suc (rev [l..<Suc n])"
  by (simp only: map_Suc_upt[symmetric] rev_map)

lemma many_Cls:
  "many (ms (Cls p)) lo hi st =
   map (\<lambda>k. advance k st) (rev [lo..<Suc (min hi (length (takeWhile p (rest st))))])"
proof (induction hi arbitrary: lo st)
  case 0
  then show ?case by (cases lo) (simp_all add: advance_0)
next
  case (Suc hi)
  show ?case
  proof (cases "rest st")
    case Nil
    then show ?thesis by (cases lo) (simp_all add: advance_0)
  next
    case (Cons c cs)
    show ?thesis
    proof (cases "p c")
      case False
      with Cons show ?thesis by (cases lo) (simp_all add: advance_0)
    next
      case True
      let ?s1 = "st\<lparr>pos := Suc (pos st), prev := Some c, rest := cs\<rparr>"
      let ?n = "min hi (length (takeWhile p cs))"
      have f: "ms (Cls p) st = [?s1]" using Cons True by simp
      have n: "min (Suc hi) (length (takeWhile p (rest st))) = Suc ?n"
        using Cons True by simp
      have ih: "many (ms (Cls p)) (lo - 1) hi ?s1 =
                map (\<lambda>k. advance (Suc k) st) (rev [lo - 1..<Suc ?n])"
        using Suc.IH[of "lo - 1" ?s1] advance_Suc[OF Cons] by (simp del: ms.simps)
      show ?thesis
      proof (cases lo)
        case 0
        have "many (ms (Cls p)) 0 (Suc hi) st =
              map (\<lambda>k. advance (Suc k) st) (rev [0..<Suc ?n]) @ [st]"
          using f ih 0 by simp
        also have "\<dots> = map (\<lambda>k. advance k st) (map Suc (rev [0..<Suc ?n]) @ [0])"
          by (simp add: advance_0 comp_def)
        finally show ?thesis unfolding 0 n rev_upt_Suc_0 .
      next
        case (Suc l)
        have "many (ms (Cls p)) (Suc l) (Suc hi) st =
              map (\<lambda>k. advance (Suc k) st) (rev [l..<Suc ?n])"
          using f ih Suc by simp
        also have "\<dots> = map (\<lambda>k. advance k st) (map Suc (rev [l..<Suc ?n]))"
          by (simp add: comp_def)
        finally show ?thesis unfolding Suc n rev_upt_Suc_Suc .
      qed
    qed
  qed
qed

lemma many_Cls_first:
  assumes "lo \<le> min hi (length (takeWhile p (rest st)))"
  shows "\<exists>tl. many (ms (Cls p)) lo hi st = advance (min hi (length (takeWhile p (rest st)))) st # tl"
  using assms by (simp add: many_Cls)

subsection \<open>The name after the label\<close>

lemma name_label_eval:
  assumes "(case pv of None \<Rightarrow> False | Some c \<Rightarrow> isword c) = False"
  shows "ms (seqs [Bnd, lit ''Name'', spaces, colon_or_hyphen, spaces, q])
           (start_state pv 0 (''Name: '' @ CHR ''J'' # s)) =
         ms q \<lparr>pos = length ''Name: '', prev = Some CHR '' '', rest = CHR ''J'' # s,
               grp = Map.empty\<rparr> @
         ms q \<lparr>pos = length ''Name:'', prev = Some CHR '':'', rest = CHR '' '' # CHR ''J'' # s,
               grp = Map.empty\<rparr>"
  using assms
  by (simp only: ev cong: evc)

lemma space_name_char: "isspace c \<Longrightarrow> name_char c"
  by (simp add: name_char_def)

lemma takeWhile_name_char_suffix:
  assumes "dropWhile isspace suf = [] \<or> \<not> name_char (hd (dropWhile isspace suf))"
  shows "takeWhile name_char suf = takeWhile isspace suf"
proof -
  let ?ws = "takeWhile isspace suf" and ?r = "dropWhile isspace suf"
  have r: "takeWhile name_char ?r = []"
  proof (cases ?r)
    case Nil
    then show ?thesis by (simp only: takeWhile.simps)
  next
    case (Cons c cs)
    with assms have "\<not> name_char c" by simp
    with Cons show ?thesis by simp
  qed
  have "takeWhile name_char suf = takeWhile name_char (?ws @ ?r)"
    by (simp only: takeWhile_dropWhile_id)
  also have "\<dots> = ?ws @ takeWhile name_char ?r"
    by (rule takeWhile_append2) (auto dest: set_takeWhileD space_name_char)
  also have "\<dots> = ?ws"
    by (simp only: r append_Nil2)
  finally show ?thesis .
qed

lemma takeWhile_name_literal:
  "takeWhile name_char (''OHN SMITH'' @ s) = ''OHN SMITH'' @ takeWhile name_char s"
  by (simp only: takeWhile.simps ev cong: evc)

lemma take_prefix_spaces:
  assumes "k \<le> length (takeWhile isspace suf)"
  shows "list_all isspace (take k suf)"
proof -
  have "take k suf = take k (takeWhile isspace suf @ dropWhile isspace suf)"
    by (simp only: takeWhile_dropWhile_id)
  also have "\<dots> = take k (takeWhile isspace suf)"
    using assms by (simp del: takeWhile_dropWhile_id)
  finally have "set (take k suf) \<subseteq> set (takeWhile isspace suf)"
    by (simp add: set_take_subset)
  then show ?thesis
    by (auto simp: list_all_iff dest: set_takeWhileD)
qed

lemma name_match_literal:
  assumes "(case pv of None \<Rightarrow> False | Some c \<Rightarrow> isword c) = False"
    and "dropWhile isspace suf = [] \<or> \<not> name_char (hd (dropWhile isspace suf))"
  shows "\<exists>m w. match_at name_re pv 0 (''Name: JOHN SMITH'' @ suf) = Some m
               \<and> group m 1 = ''JOHN SMITH'' @ w \<and> list_all isspace w"
proof -
  define st6 where "st6 = \<lparr>pos = length ''Name: '', prev = Some CHR '' '',
                          rest = CHR ''J'' # ''OHN SMITH'' @ suf, grp = Map.empty\<rparr>"
  define st5 where "st5 = \<lparr>pos = length ''Name:'', prev = Some CHR '':'',
                          rest = CHR '' '' # CHR ''J'' # ''OHN SMITH'' @ suf, grp = Map.empty\<rparr>"
  define s7 where "s7 = st6\<lparr>pos := Suc (pos st6), prev := Some CHR ''J'', rest := ''OHN SMITH'' @ suf\<rparr>"
  define n where "n = min 100 (9 + length (takeWhile isspace suf))"
  define upd :: "mstate \<Rightarrow> mstate" where "upd = (\<lambda>st'. st'\<lparr>grp := (grp st')(1 \<mapsto> take (pos st' - pos st6) (rest st6))\<rparr>)"
  have r7: "rest s7 = ''OHN SMITH'' @ suf" by (simp add: s7_def)
  have "takeWhile name_char (rest s7) = ''OHN SMITH'' @ takeWhile isspace suf"
    by (simp only: r7 takeWhile_name_literal takeWhile_name_char_suffix[OF assms(2)])
  then have "length (takeWhile name_char (rest s7)) = 9 + length (takeWhile isspace suf)"
    by simp
  then have n: "min 100 (length (takeWhile name_char (rest s7))) = n"
    by (simp only: n_def)
  have n9: "9 \<le> n" "n - 9 \<le> length (takeWhile isspace suf)" by (simp_all add: n_def)
  then have "2 \<le> min 100 (length (takeWhile name_char (rest s7)))" by (simp only: n)
  from many_Cls_first[OF this] obtain tl where
    tl: "many (ms (Cls name_char)) 2 100 s7 = advance n s7 # tl" unfolding n by blast
  have J: "isAZ CHR ''J''" by (simp only: ev)
  have "ms (Cls isAZ) st6 = [s7]" using J by (simp add: st6_def s7_def)
  then have "ms name_capture st6 = map upd (many (ms (Cls name_char)) 2 100 s7)"
    unfolding name_capture_def upd_def by (simp del: ms.simps(1))
  then have cap: "ms name_capture st6 = upd (advance n s7) # map upd tl"
    by (simp only: tl list.map)
  have "ms name_re (start_state pv 0 (''Name: JOHN SMITH'' @ suf)) =
        ms name_capture st6 @ ms name_capture st5"
    unfolding name_re_def st6_def st5_def
    using name_label_eval[OF assms(1), of name_capture "''OHN SMITH'' @ suf"]
    by simp
  then have "ms name_re (start_state pv 0 (''Name: JOHN SMITH'' @ suf)) =
        upd (advance n s7) # (map upd tl @ ms name_capture st5)"
    by (simp only: cap append.simps)
  then have m: "match_at name_re pv 0 (''Name: JOHN SMITH'' @ suf) =
        Some (mk_match 0 (''Name: JOHN SMITH'' @ suf) (upd (advance n s7)))"
    by (simp only: match_at_def list.case)
  have "group (mk_match 0 (''Name: JOHN SMITH'' @ suf) (upd (advance n s7))) 1
          = take (Suc n) (''JOHN SMITH'' @ suf)"
    by (simp add: mk_match_def group_def advance_def upd_def s7_def st6_def)
  also have "\<dots> = take (Suc n) ''JOHN SMITH'' @ take (Suc n - length ''JOHN SMITH'') suf"
    by (rule take_append)
  also have "take (Suc n) ''JOHN SMITH'' = ''JOHN SMITH''"
    by (rule take_all) (use n9(1) in simp)
  also have "Suc n - length ''JOHN SMITH'' = n - 9" by simp
  finally have g: "group (mk_match 0 (''Name: JOHN SMITH'' @ suf) (upd (advance n s7))) 1
          = ''JOHN SMITH'' @ take (n - 9) suf" .
  from m g take_prefix_spaces[OF n9(2)] show ?thesis by blast
qed

lemma strip_name_spaces:
  assumes "list_all isspace w"
  shows "strip (''JOHN SMITH'' @ w) = ''JOHN SMITH''"
proof -
  have J: "\<not> isspace CHR ''J''" "\<not> isspace CHR ''H''" by (simp_all only: ev simp_thms)
  have "dropWhile isspace (''JOHN SMITH'' @ w) = ''JOHN SMITH'' @ w"
    using J(1) by simp
  moreover have "dropWhile isspace (rev w @ rev ''JOHN SMITH'') = rev ''JOHN SMITH''"
    using assms J(2) by (simp add: dropWhile_append3 list_all_iff dropWhile_append2)
  ultimately show ?thesis by (simp add: strip_def)
qed

text \<open>
  Claim C5, as amended. If the text is \<open>pre @ ''Name: JOHN SMITH'' @ suf\<close>, where the label
  pattern \<^verbatim>\<open>\bName\s*[:\-]\s*([A-Z][A-Z\s\.\-]{2,100})\<close> matches at no offset inside
  \<open>pre\<close>, \<open>pre\<close> is empty or ends in a non-word character, and \<open>suf\<close>, after its leading
  white space, is empty or begins with a character other than an upper-case letter, a
  period or a hyphen, then \<open>cardholder_name\<close> is \<open>JOHN SMITH\<close>.
\<close>

theorem name_after_label:
  assumes "text = pre @ ''Name: JOHN SMITH'' @ suf"
    and "unmatched name_re text (length pre)"
    and "pre = [] \<or> \<not> isword (last pre)"
    and "dropWhile isspace suf = [] \<or> \<not> name_char (hd (dropWhile isspace suf))"
  shows "cardholder_name (extract_datapoints_from_text text) = Some ''JOHN SMITH''"
proof -
  let ?pv = "if pre = [] then None else Some (last pre)"
  have "(case ?pv of None \<Rightarrow> False | Some c \<Rightarrow> isword c) = False"
    using assms(3) by auto
  from name_match_literal[OF this assms(4)] obtain m w where
    m: "match_at name_re ?pv 0 (''Name: JOHN SMITH'' @ suf) = Some m"
    "group m 1 = ''JOHN SMITH'' @ w" "list_all isspace w"
    by blast
  from search_after_prefix[OF assms(2)[unfolded assms(1)] m(1)]
  have "re_search name_re text = Some (shift (length pre) m)"
    by (simp only: assms(1))
  moreover have "strip (group m (Suc 0)) = ''JOHN SMITH''"
    using m(2) strip_name_spaces[OF m(3)] by simp
  ultimately have "labelled_name text = Some ''JOHN SMITH''"
    by (simp add: labelled_name_def shift_simps)
  then show ?thesis
    by (simp add: fields extract_cardholder_name_def truthy_def)
qed

theorem name_after_label_witness:
  "unmatched name_re (''Card Statement, '' @ ''Name: JOHN SMITH'' @ ''\<newline>4111 main street'')
     (length ''Card Statement, '')
   \<and> \<not> isword (last ''Card Statement, '')
   \<and> \<not> name_char (hd (dropWhile isspace ''\<newline>4111 main street''))
   \<and> cardholder_name (extract_datapoints_from_text
        (''Card Statement, '' @ ''Name: JOHN SMITH'' @ ''\<newline>4111 main street'')) = Some ''JOHN SMITH''"
proof -
  have a: "unmatched name_re (''Card Statement, '' @ ''Name: JOHN SMITH'' @ ''\<newline>4111 main street'')
     (length ''Card Statement, '')"
    by (simp only: unmatched_def unmatched_from.simps ev cong: evc)
  have b: "\<not> isword (last ''Card Statement, '')"
    by (simp only: last.simps ev cong: evc)
  have c: "\<not> name_char (hd (dropWhile isspace ''\<newline>4111 main street''))"
    by (simp only: list.sel ev cong: evc)
  from name_after_label[OF refl a disjI2[OF b] disjI2[OF c]] a b c show ?thesis by simp
qed

text \<open>
  The claim as stated fails: the capture runs on over white space, a line break included,
  when an upper-case letter follows it.
\<close>

theorem name_runs_over_line_break:
  "cardholder_name (extract_datapoints_from_text ''Name: JOHN SMITH\<newline>MUMBAI'')
     = Some ''JOHN SMITH\<newline>MUMBAI''"
  by (simp only: ev cong: evc)

subsection \<open>The masked card number\<close>

lemma concat_map_all_Nil: "(\<And>x. x \<in> set xs \<Longrightarrow> f x = []) \<Longrightarrow> concat (map f xs) = []"
  by (induction xs) simp_all

lemma takeWhile_drop:
  "k \<le> length (takeWhile p xs) \<Longrightarrow> takeWhile p (drop k xs) = drop k (takeWhile p xs)"
proof (induction xs arbitrary: k)
  case Nil
  then show ?case by simp
next
  case (Cons x xs)
  then show ?case by (cases k) (simp_all split: if_splits)
qed

lemma rest_advance: "rest (advance k st) = drop k (rest st)"
  by (simp add: advance_def)

lemma pos_advance: "pos (advance k st) = pos st + k"
  by (simp add: advance_def)

lemma four_re_closed:
  "ms four_re st = (if 4 \<le> length (takeWhile isdigit (rest st)) then [advance 4 st] else [])"
proof -
  have "ms four_re st =
        map (\<lambda>k. advance k st) (rev [4..<Suc (min 4 (length (takeWhile isdigit (rest st))))])"
    by (simp only: four_re_def ms.simps option.case many_Cls)
  moreover have "4 \<le> length (takeWhile isdigit (rest st)) \<Longrightarrow>
                 [4..<Suc (min 4 (length (takeWhile isdigit (rest st))))] = [4]"
    by (simp add: min_absorb1)
  ultimately show ?thesis by simp
qed

lemma mask_gap_not_digit: "mask_gap c \<Longrightarrow> \<not> isdigit c"
  by (auto simp: mask_gap_def ismask_def isspace_def isdigit_def code_def)

lemma mask_tail_gap: "mask_tail c = (mask_gap c \<or> isdigit c)"
  by (auto simp: mask_tail_def mask_gap_def)

lemma no_digit_after_gap:
  assumes "dropWhile mask_gap suf = [] \<or> \<not> isdigit (hd (dropWhile mask_gap suf))"
    and "j \<le> length (takeWhile mask_gap suf)"
  shows "takeWhile isdigit (drop j suf) = []"
proof -
  let ?g = "takeWhile mask_gap suf" and ?r = "dropWhile mask_gap suf"
  have r: "takeWhile isdigit ?r = []"
  proof (cases ?r)
    case Nil
    then show ?thesis by (simp only: takeWhile.simps)
  next
    case (Cons c cs)
    with assms(1) have "\<not> isdigit c" by simp
    with Cons show ?thesis by simp
  qed
  have "drop j suf = drop j (?g @ ?r)"
    by (simp only: takeWhile_dropWhile_id)
  also have "\<dots> = drop j ?g @ ?r"
    using assms(2) by (simp del: takeWhile_dropWhile_id)
  finally have d: "drop j suf = drop j ?g @ ?r" .
  show ?thesis
  proof (cases "drop j ?g")
    case Nil
    with d r show ?thesis by (simp only: append_Nil)
  next
    case (Cons c cs)
    then have "c \<in> set ?g" by (metis in_set_dropD list.set_intros(1))
    then have "\<not> isdigit c" by (auto dest: set_takeWhileD mask_gap_not_digit)
    with d Cons show ?thesis by (simp del: takeWhile_dropWhile_id)
  qed
qed

lemma takeWhile_mask_tail_suffix:
  assumes "dropWhile mask_gap suf = [] \<or> \<not> isdigit (hd (dropWhile mask_gap suf))"
  shows "takeWhile mask_tail suf = takeWhile mask_gap suf"
proof -
  let ?g = "takeWhile mask_gap suf" and ?r = "dropWhile mask_gap suf"
  have r: "takeWhile mask_tail ?r = []"
  proof (cases ?r)
    case Nil
    then show ?thesis by (simp only: takeWhile.simps)
  next
    case (Cons c cs)
    with assms have "\<not> isdigit c" by simp
    moreover from Cons hd_dropWhile[of mask_gap suf] have "\<not> mask_gap c" by simp
    ultimately have "\<not> mask_tail c" by (simp add: mask_tail_gap)
    with Cons show ?thesis by simp
  qed
  have "takeWhile mask_tail suf = takeWhile mask_tail (?g @ ?r)"
    by (simp only: takeWhile_dropWhile_id)
  also have "\<dots> = ?g @ takeWhile mask_tail ?r"
    by (rule takeWhile_append2) (auto dest: set_takeWhileD simp: mask_tail_gap)
  also have "\<dots> = ?g"
    by (simp only: r append_Nil2)
  finally show ?thesis .
qed

lemma takeWhile_mask_literal: "takeWhile ismask (''******9004'' @ s) = ''******''"
  by (simp only: takeWhile.simps ev cong: evc)

lemma takeWhile_digit_literal:
  "takeWhile isdigit (''9004'' @ s) = ''9004'' @ takeWhile isdigit s"
  by (simp only: takeWhile.simps ev cong: evc)

lemma takeWhile_tail_literal:
  "takeWhile mask_tail (''9004'' @ s) = ''9004'' @ takeWhile mask_tail s"
  by (simp only: takeWhile.simps ev cong: evc)

lemma few_digits_after:
  assumes "dropWhile mask_gap suf = [] \<or> \<not> isdigit (hd (dropWhile mask_gap suf))"
    and "1 \<le> k" and "k \<le> 4 + length (takeWhile mask_gap suf)"
  shows "length (takeWhile isdigit (drop k (''9004'' @ suf))) < 4"
proof (cases "k \<le> 4")
  case True
  have t: "takeWhile isdigit (''9004'' @ suf) = ''9004''"
    using no_digit_after_gap[OF assms(1), of 0]
    by (simp only: takeWhile_digit_literal) simp
  have "k \<le> length (takeWhile isdigit (''9004'' @ suf))"
    using True by (simp only: t) simp
  from takeWhile_drop[OF this]
  have "takeWhile isdigit (drop k (''9004'' @ suf)) = drop k ''9004''"
    by (simp only: t)
  then show ?thesis using assms(2) by simp
next
  case False
  have "drop k (''9004'' @ suf) = drop k ''9004'' @ drop (k - length ''9004'') suf"
    by (rule drop_append)
  moreover have "drop k ''9004'' = []"
    by (rule drop_all) (use False in simp)
  moreover have "length ''9004'' = 4" by simp
  ultimately have "drop k (''9004'' @ suf) = drop (k - 4) suf"
    by (simp only: append_Nil)
  moreover have "k - 4 \<le> length (takeWhile mask_gap suf)" using assms(3) by simp
  ultimately show ?thesis
    using no_digit_after_gap[OF assms(1), of "k - 4"] by simp
qed

lemma masked_digits_unmatched:
  "unmatched_from masked_re pv 0 (''530562'' @ ''******9004'' @ suf) (length ''530562'')"
  by (simp only: unmatched_from.simps ev cong: evc)

lemma masked_match_literal:
  assumes "dropWhile mask_gap suf = [] \<or> \<not> isdigit (hd (dropWhile mask_gap suf))"
  shows "\<exists>m. match_at masked_re pv 0 (''******9004'' @ suf) = Some m \<and> group m 2 = ''9004''"
proof -
  define st0 where "st0 = start_state pv 0 (''******9004'' @ suf)"
  define s6 where "s6 = advance 6 st0"
  define n where "n = min 20 (length (takeWhile mask_tail (rest s6)))"
  define sG where "sG = (advance 4 s6)\<lparr>grp := (grp (advance 4 s6))(2 \<mapsto> ''9004'')\<rparr>"
  define upd :: "mstate \<Rightarrow> mstate"
    where "upd = (\<lambda>st'. st'\<lparr>grp := (grp st')(1 \<mapsto> take (pos st' - pos st0) (rest st0))\<rparr>)"
  let ?A = "Rep (Cls ismask) 2 None" and ?B = "Rep (Cls mask_tail) 0 (Some 20)"
  let ?G = "Grp 2 four_re"
  have r0: "rest st0 = ''******9004'' @ suf"
    by (simp add: st0_def start_state_def)
  have "min (length (rest st0)) (length (takeWhile ismask (rest st0))) = 6"
    by (simp only: r0 takeWhile_mask_literal) simp
  with many_Cls_first[of 2 "length (rest st0)" ismask st0] obtain tl where
    A: "ms ?A st0 = s6 # tl"
    unfolding s6_def by auto
  have r6: "rest s6 = ''9004'' @ suf"
    unfolding s6_def rest_advance r0 by simp
  have B: "ms ?B s6 = map (\<lambda>k. advance k s6) (rev [0..<Suc n])"
    unfolding n_def by (simp only: ms.simps option.case many_Cls)
  have "takeWhile mask_tail (rest s6) = ''9004'' @ takeWhile mask_gap suf"
    by (simp only: r6 takeWhile_tail_literal takeWhile_mask_tail_suffix[OF assms])
  then have nle: "n \<le> 4 + length (takeWhile mask_gap suf)"
    by (simp add: n_def)
  have dead: "ms ?G (advance k s6) = []" if "k \<in> set (rev [Suc 0..<Suc n])" for k
  proof -
    from that nle have "1 \<le> k" "k \<le> 4 + length (takeWhile mask_gap suf)" by auto
    from few_digits_after[OF assms this]
    have "\<not> 4 \<le> length (takeWhile isdigit (rest (advance k s6)))"
      by (simp only: rest_advance r6)
    then have "ms four_re (advance k s6) = []"
      by (simp only: four_re_closed if_False)
    then show ?thesis by (simp only: ms.simps list.map)
  qed
  have "4 \<le> length (takeWhile isdigit (rest s6))"
    by (simp only: r6 takeWhile_digit_literal) simp
  then have "ms four_re s6 = [advance 4 s6]"
    by (simp only: four_re_closed if_True)
  moreover have "take (pos (advance 4 s6) - pos s6) (rest s6) = ''9004''"
    by (simp only: pos_advance r6) simp
  ultimately have live: "ms ?G s6 = [sG]"
    unfolding sG_def by (simp only: ms.simps list.map)
  have "rev [0..<Suc n] = rev [Suc 0..<Suc n] @ [0]"
    by (simp only: upt_conv_Cons[of 0 "Suc n", OF zero_less_Suc] rev.simps)
  then have "ms (Seq ?B ?G) s6 =
        concat (map (ms ?G) (map (\<lambda>k. advance k s6) (rev [Suc 0..<Suc n] @ [0])))"
    by (simp only: ms.simps(2) B)
  also have "\<dots> =
        concat (map (\<lambda>k. ms ?G (advance k s6)) (rev [Suc 0..<Suc n])) @ ms ?G (advance 0 s6)"
    by (simp add: comp_def del: ms.simps(5) upt_Suc)
  also have "concat (map (\<lambda>k. ms ?G (advance k s6)) (rev [Suc 0..<Suc n])) = []"
    by (rule concat_map_all_Nil) (rule dead)
  finally have BG: "ms (Seq ?B ?G) s6 = [sG]"
    by (simp only: advance_0 live append_Nil)
  have "ms (seqs [?A, ?B, ?G]) st0 = concat (map (ms (Seq ?B ?G)) (s6 # tl))"
    by (simp only: seqs.simps ms.simps(2) A)
  then have "ms (seqs [?A, ?B, ?G]) st0 = sG # concat (map (ms (Seq ?B ?G)) tl)"
    by (simp only: list.map concat.simps BG append.simps)
  then have "ms masked_re st0 = upd sG # map upd (concat (map (ms (Seq ?B ?G)) tl))"
    unfolding masked_re_def upd_def by (simp only: ms.simps(5) list.map)
  then have m: "match_at masked_re pv 0 (''******9004'' @ suf) =
        Some (mk_match 0 (''******9004'' @ suf) (upd sG))"
    unfolding st0_def by (simp only: match_at_def list.case)
  have "group (mk_match 0 (''******9004'' @ suf) (upd sG)) 2 = ''9004''"
    by (simp add: mk_match_def group_def upd_def sG_def)
  with m show ?thesis by blast
qed

lemma strip_9004: "strip ''9004'' = ''9004''"
  by (simp only: ev cong: evc)

text \<open>
  Claim C6, as amended. If the text is \<open>pre @ ''530562******9004'' @ suf\<close>, where the
  masked-run pattern \<^verbatim>\<open>([Xx\*]{2,}[Xx\*\d\s\-]{0,20}(\d{4}))\<close> matches at no offset inside
  \<open>pre\<close>, and \<open>suf\<close>, after its leading run of masking characters, white space and
  hyphens, is empty or begins with a character other than a digit, then \<open>card_last4\<close> is
  \<open>9004\<close>.
\<close>

theorem last4_after_mask:
  assumes "text = pre @ ''530562******9004'' @ suf"
    and "unmatched masked_re text (length pre)"
    and "dropWhile mask_gap suf = [] \<or> \<not> isdigit (hd (dropWhile mask_gap suf))"
  shows "card_last4 (extract_datapoints_from_text text) = Some ''9004''"
proof -
  have t: "text = (pre @ ''530562'') @ ''******9004'' @ suf"
    using assms(1) by simp
  have "unmatched masked_re (pre @ ''530562'' @ ''******9004'' @ suf) (length pre)"
    using assms(1,2) by simp
  from unmatched_extend[OF this masked_digits_unmatched]
  have u: "unmatched masked_re ((pre @ ''530562'') @ ''******9004'' @ suf) (length (pre @ ''530562''))" .
  from masked_match_literal[OF assms(3)] obtain m where
    m: "match_at masked_re (if pre @ ''530562'' = [] then None else Some (last (pre @ ''530562''))) 0
          (''******9004'' @ suf) = Some m" "group m 2 = ''9004''"
    by blast
  from search_after_prefix[OF u m(1)]
  have "re_search masked_re text = Some (shift (length (pre @ ''530562'')) m)"
    by (simp only: t)
  then have "possible_last4 text = Some ''9004''"
    by (simp add: possible_last4_def shift_simps m(2))
  then show ?thesis
    by (simp add: fields extract_card_last4_def strip_9004)
qed

theorem last4_after_mask_witness:
  "unmatched masked_re (''Card No: '' @ ''530562******9004'' @ ''\<newline>Statement Date'')
     (length ''Card No: '')
   \<and> \<not> isdigit (hd (dropWhile mask_gap ''\<newline>Statement Date''))
   \<and> card_last4 (extract_datapoints_from_text
        (''Card No: '' @ ''530562******9004'' @ ''\<newline>Statement Date'')) = Some ''9004''"
proof -
  have a: "unmatched masked_re (''Card No: '' @ ''530562******9004'' @ ''\<newline>Statement Date'')
     (length ''Card No: '')"
    by (simp only: unmatched_def unmatched_from.simps ev cong: evc)
  have b: "\<not> isdigit (hd (dropWhile mask_gap ''\<newline>Statement Date''))"
    by (simp only: list.sel dropWhile.simps mask_gap_def ev cong: evc)
  from last4_after_mask[OF refl a disjI2[OF b]] a b show ?thesis by simp
qed

text \<open>
  The claim as stated fails: a digit after the masked number moves the four digits that
  end the run.
\<close>

theorem last4_moved_by_next_digit:
  "card_last4 (extract_datapoints_from_text ''530562******90045'') = Some ''0045''"
  by (simp only: ev cong: evc)

end
